theory Spec2Isabelle
  imports Complex_Main "HOL-Library.Word" "HOL-Library.Log_Nat"
begin

section \<open>Go primitives used by package retle\<close>

subsection \<open>IEEE 754 binary64 (\<^verbatim>\<open>float64\<close>)\<close>

text \<open>
  A \<^verbatim>\<open>float64\<close> is its bit pattern: one sign bit, eleven bits of biased exponent and
  fifty-two bits of fraction. Every value of the record is one float64 and conversely.
\<close>

record float64 =
  sign_bit :: bool
  exp_bits :: "11 word"
  frac_bits :: "52 word"

definition isNaN :: "float64 \<Rightarrow> bool" where
  "isNaN f \<longleftrightarrow> exp_bits f = 2047 \<and> frac_bits f \<noteq> 0"

definition isInf :: "float64 \<Rightarrow> bool" where
  "isInf f \<longleftrightarrow> exp_bits f = 2047 \<and> frac_bits f = 0"

definition isFinite :: "float64 \<Rightarrow> bool" where
  "isFinite f \<longleftrightarrow> exp_bits f \<noteq> 2047"

text \<open>
  A finite float64 is \<open>\<plusminus> significand * 2 ^ exponent\<close>, with an integer significand
  below \<open>2 ^ 53\<close>; the hidden bit is set unless the exponent field is zero (subnormals
  and zero).
\<close>

definition significand :: "float64 \<Rightarrow> nat" where
  "significand f = (if exp_bits f = 0 then unat (frac_bits f) else 2 ^ 52 + unat (frac_bits f))"

definition exponent :: "float64 \<Rightarrow> int" where
  "exponent f = (if exp_bits f = 0 then - 1074 else uint (exp_bits f) - 1075)"

definition isZero :: "float64 \<Rightarrow> bool" where
  "isZero f \<longleftrightarrow> exp_bits f = 0 \<and> frac_bits f = 0"

definition f64_val :: "float64 \<Rightarrow> rat" where
  "f64_val f = (if sign_bit f then - 1 else 1) * of_nat (significand f) * 2 powi exponent f"

definition f64_NaN :: float64 where
  "f64_NaN = \<lparr>sign_bit = False, exp_bits = 2047, frac_bits = 2 ^ 51\<rparr>"

definition f64_Inf :: "bool \<Rightarrow> float64" where
  "f64_Inf s = \<lparr>sign_bit = s, exp_bits = 2047, frac_bits = 0\<rparr>"

text \<open>
  \<open>f64_pack s m e\<close> is the float64 \<open>\<plusminus> m * 2 ^ e\<close> for a significand that already fits:
  \<open>m \<le> 2 ^ 53\<close>, and \<open>m < 2 ^ 52\<close> only at the least exponent \<open>- 1074\<close>. An exponent
  above 971 overflows to infinity.
\<close>

definition f64_pack :: "bool \<Rightarrow> nat \<Rightarrow> int \<Rightarrow> float64" where
  "f64_pack s m e =
     (let m' = (if m = 2 ^ 53 then 2 ^ 52 else m);
          e' = (if m = 2 ^ 53 then e + 1 else e)
      in if m' < 2 ^ 52 then \<lparr>sign_bit = s, exp_bits = 0, frac_bits = of_nat m'\<rparr>
         else if 971 < e' then f64_Inf s
         else \<lparr>sign_bit = s, exp_bits = of_int (e' + 1075), frac_bits = of_nat (m' - 2 ^ 52)\<rparr>)"

text \<open>\<open>rne_shift M k\<close> is \<open>M / 2 ^ k\<close> rounded to the nearest integer, ties to even.\<close>

definition rne_shift :: "nat \<Rightarrow> nat \<Rightarrow> nat" where
  "rne_shift M k =
     (let q = M div 2 ^ k; r = M mod 2 ^ k
      in if 2 * r < 2 ^ k then q
         else if 2 ^ k < 2 * r then q + 1
         else if even q then q else q + 1)"

text \<open>
  \<open>f64_round s M E\<close> is the float64 nearest to \<open>\<plusminus> M * 2 ^ E\<close> (round to nearest, ties to
  even, the rounding mode of Go's float64 arithmetic): \<open>k\<close> low bits of \<open>M\<close> are
  dropped so that 53 bits remain and the exponent is at least \<open>- 1074\<close>.
\<close>

definition f64_round :: "bool \<Rightarrow> nat \<Rightarrow> int \<Rightarrow> float64" where
  "f64_round s M E =
     (let k = max (bitlen (int M) - 53) (- 1074 - E)
      in if k \<le> 0 then f64_pack s (M * 2 ^ nat (- k)) (E + k)
         else f64_pack s (rne_shift M (nat k)) (E + k))"

text \<open>A positive constant \<open>M * 2 ^ E\<close> of the source, as the compiler rounds it to float64.\<close>

definition f64_const :: "nat \<Rightarrow> int \<Rightarrow> float64" where
  "f64_const M E = f64_round False M E"

text \<open>
  The product of two float64 values (Go's \<^verbatim>\<open>*\<close> on float64): the exact product of the
  two values, rounded. Which NaN an invalid product yields is left open by Go; the model
  yields the quiet NaN \<open>f64_NaN\<close>, and \<^verbatim>\<open>NextDuration\<close> hands any NaN to the
  implementation-dependent conversion below.
\<close>

definition f64_mul :: "float64 \<Rightarrow> float64 \<Rightarrow> float64" where
  "f64_mul a b =
     (if isNaN a \<or> isNaN b then f64_NaN
      else if isInf a \<or> isInf b then
        (if isZero a \<or> isZero b then f64_NaN else f64_Inf (sign_bit a \<noteq> sign_bit b))
      else f64_round (sign_bit a \<noteq> sign_bit b)
             (significand a * significand b) (exponent a + exponent b))"

text \<open>The conversion \<^verbatim>\<open>float64(i)\<close> of an \<^verbatim>\<open>int64\<close>.\<close>

definition float64_of_int64 :: "64 word \<Rightarrow> float64" where
  "float64_of_int64 i = f64_round (sint i < 0) (nat \<bar>sint i\<bar>) 0"

text \<open>
  The conversion \<^verbatim>\<open>int64(f)\<close> of a float64 discards the fraction (truncation towards
  zero, \<open>trunc_rat\<close> on the exact value). When int64 cannot represent the value (NaN,
  an infinity, a value outside \<open>[- 2 ^ 63, 2 ^ 63)\<close>) the conversion succeeds with an
  implementation-dependent result, which is the parameter \<open>cvt\<close> here.
\<close>

definition trunc_rat :: "rat \<Rightarrow> int" where
  "trunc_rat x = (if x < 0 then \<lceil>x\<rceil> else \<lfloor>x\<rfloor>)"

definition f64_trunc :: "float64 \<Rightarrow> int" where
  "f64_trunc f =
     (let m = int (significand f); e = exponent f;
          a = (if 0 \<le> e then m * 2 ^ nat e else m div 2 ^ nat (- e))
      in if sign_bit f then - a else a)"

definition fits_int64 :: "float64 \<Rightarrow> bool" where
  "fits_int64 f \<longleftrightarrow> isFinite f \<and> - (2 ^ 63) \<le> f64_trunc f \<and> f64_trunc f < 2 ^ 63"

definition int64_of_float64 :: "(float64 \<Rightarrow> 64 word) \<Rightarrow> float64 \<Rightarrow> 64 word" where
  "int64_of_float64 cvt f = (if fits_int64 f then word_of_int (f64_trunc f) else cvt f)"

text \<open>What amd64 yields for an unrepresentable value: the integer indefinite.\<close>

definition cvt_amd64 :: "float64 \<Rightarrow> 64 word" where
  "cvt_amd64 f = 0x8000000000000000"

text \<open>
  What IEEE 754 asks of a rounded result, said with exact values only: \<open>f\<close> is a finite
  float64 that no finite float64 beats in distance to the exact value \<open>x\<close>, and when
  another float64 value is as near, \<open>f\<close> is the one whose significand is even.
\<close>

definition nearest_even :: "rat \<Rightarrow> float64 \<Rightarrow> bool" where
  "nearest_even x f \<longleftrightarrow>
     isFinite f
     \<and> (\<forall>g. isFinite g \<longrightarrow> \<bar>f64_val f - x\<bar> \<le> \<bar>f64_val g - x\<bar>)
     \<and> (\<forall>g. isFinite g \<and> f64_val g \<noteq> f64_val f \<and> \<bar>f64_val g - x\<bar> = \<bar>f64_val f - x\<bar>
            \<longrightarrow> even (significand f))"

subsection \<open>Package time\<close>

type_synonym Duration = "64 word"

definition Nanosecond :: Duration where "Nanosecond = 1"
definition Microsecond :: Duration where "Microsecond = 1000 * Nanosecond"
definition Millisecond :: Duration where "Millisecond = 1000 * Microsecond"

section \<open>Package retle\<close>

definition DefaultInitialInterval :: Duration where
  "DefaultInitialInterval = 500 * Millisecond"

text \<open>The constant \<^verbatim>\<open>1.5\<close>, that is \<open>3 * 2 ^ - 1\<close>, as a float64.\<close>

definition DefaultMultiplier :: float64 where
  "DefaultMultiplier = f64_const 3 (- 1)"

record ExpTimer =
  interval :: Duration
  multiplier :: float64

definition NewExpTimer :: "Duration \<Rightarrow> float64 \<Rightarrow> ExpTimer" where
  "NewExpTimer i m = \<lparr>interval = i, multiplier = m\<rparr>"

definition DefaultExpTimer :: ExpTimer where
  "DefaultExpTimer = NewExpTimer DefaultInitialInterval DefaultMultiplier"

text \<open>\<^verbatim>\<open>NextDuration\<close> returns the interval it found and leaves the timer updated.\<close>

definition NextDuration :: "(float64 \<Rightarrow> 64 word) \<Rightarrow> ExpTimer \<Rightarrow> Duration \<times> ExpTimer" where
  "NextDuration cvt e =
     (let beforeInterval = interval e;
          e' = e\<lparr>interval :=
                   int64_of_float64 cvt (f64_mul (float64_of_int64 (interval e)) (multiplier e))\<rparr>
      in (beforeInterval, e'))"

text \<open>
  Names for what \<^verbatim>\<open>NextDuration\<close> computes on the way: the interval converted to
  float64, the float64 product that is converted back, and the exact product of the
  interval and the multiplier in the rationals, which no Go value holds.
\<close>

abbreviation float_interval :: "ExpTimer \<Rightarrow> float64" where
  "float_interval e \<equiv> float64_of_int64 (interval e)"

abbreviation float_product :: "ExpTimer \<Rightarrow> float64" where
  "float_product e \<equiv> f64_mul (float64_of_int64 (interval e)) (multiplier e)"

abbreviation exact_product :: "ExpTimer \<Rightarrow> rat" where
  "exact_product e \<equiv> rat_of_int (sint (interval e)) * f64_val (multiplier e)"

subsection \<open>The world a retry runs in\<close>

text \<open>
  The operation, the clock and the context live in a world \<open>'w\<close> that the model threads
  through: calling the operation and sleeping (\<^verbatim>\<open>time.Sleep\<close>, the parameter
  \<open>time_Sleep\<close>) change it, and the context reads it. The world holds everything but
  the timer: the fields of the timer are unexported, and the operation here does not
  call the methods of the timer it is retried with (one that may is the subject of
  \<open>ExpTimer_Retry_reentrant\<close> below). Go's \<^verbatim>\<open>error\<close> is \<open>'x option\<close>,
  with \<open>None\<close> for \<^verbatim>\<open>nil\<close>. A context is what the loop uses of it: whether the channel
  of \<^verbatim>\<open>Done\<close> is closed, and the value of \<^verbatim>\<open>Err\<close>.
\<close>

type_synonym ('w, 'x) RetryFunc = "'w \<Rightarrow> (bool \<times> 'x option) \<times> 'w"

record ('w, 'x) Context =
  Done :: "'w \<Rightarrow> bool"
  Err :: "'w \<Rightarrow> 'x option"

text \<open>
  What a run did, in order: a call of the operation with what it returned, a check of the
  context that found it done (with its error) or not, a sleep with its duration. The
  history is a ghost field, no Go code reads it.
\<close>

datatype 'x event =
    Called bool "'x option"
  | Cancelled "'x option"
  | NotCancelled
  | Slept Duration

record ('w, 'x) machine =
  timer :: ExpTimer
  world :: 'w
  history :: "'x event list"

definition Sleep ::
  "(float64 \<Rightarrow> 64 word) \<Rightarrow> (Duration \<Rightarrow> 'w \<Rightarrow> 'w) \<Rightarrow> ('w, 'x) machine \<Rightarrow> ('w, 'x) machine" where
  "Sleep cvt time_Sleep s =
     (case NextDuration cvt (timer s) of
        (d, e') \<Rightarrow> s\<lparr>timer := e', world := time_Sleep d (world s),
                     history := history s @ [Slept d]\<rparr>)"

text \<open>
  The loop of \<^verbatim>\<open>Retry\<close> may run for ever: the result is \<open>None\<close> then, and otherwise
  the error returned with the state left behind.
\<close>

partial_function (option) ExpTimer_Retry ::
  "(float64 \<Rightarrow> 64 word) \<Rightarrow> (Duration \<Rightarrow> 'w \<Rightarrow> 'w) \<Rightarrow> ('w, 'x) Context \<Rightarrow> ('w, 'x) RetryFunc
     \<Rightarrow> ('w, 'x) machine \<Rightarrow> ('x option \<times> ('w, 'x) machine) option" where
  "ExpTimer_Retry cvt time_Sleep ctx retryFunc s =
     (case retryFunc (world s) of
        ((isRetry, err), w1) \<Rightarrow>
          if \<not> isRetry then
            Some (err, s\<lparr>world := w1, history := history s @ [Called isRetry err]\<rparr>)
          else if Done ctx w1 then
            Some (Err ctx w1,
                  s\<lparr>world := w1,
                    history := history s @ [Called isRetry err, Cancelled (Err ctx w1)]\<rparr>)
          else
            ExpTimer_Retry cvt time_Sleep ctx retryFunc
              (Sleep cvt time_Sleep
                 (s\<lparr>world := w1, history := history s @ [Called isRetry err, NotCancelled]\<rparr>)))"

text \<open>The package-level \<^verbatim>\<open>Retry\<close>: a fresh default timer, discarded at the end.\<close>

definition Retry ::
  "(float64 \<Rightarrow> 64 word) \<Rightarrow> (Duration \<Rightarrow> 'w \<Rightarrow> 'w) \<Rightarrow> ('w, 'x) Context \<Rightarrow> ('w, 'x) RetryFunc
     \<Rightarrow> 'w \<Rightarrow> ('x option \<times> 'w \<times> 'x event list) option" where
  "Retry cvt time_Sleep ctx retryFunc w =
     (let e = DefaultExpTimer
      in map_option (\<lambda>(err, s). (err, world s, history s))
           (ExpTimer_Retry cvt time_Sleep ctx retryFunc \<lparr>timer = e, world = w, history = []\<rparr>))"

subsection \<open>An operation that holds the timer\<close>




subsection \<open>The package-level Retry as the specification words it\<close>

text \<open>
  The specification's words for the default settings: a fresh timer whose interval is
  500 milliseconds, in nanoseconds, and whose multiplier is the float64 1.5 (sign 0,
  biased exponent 1023, fraction \<open>2 ^ 51\<close>).
\<close>

definition spec_default_timer :: ExpTimer where
  "spec_default_timer =
     \<lparr>interval = 500000000,
      multiplier = \<lparr>sign_bit = False, exp_bits = 1023, frac_bits = 0x8000000000000\<rparr>\<rparr>"

definition spec_Retry ::
  "(float64 \<Rightarrow> 64 word) \<Rightarrow> (Duration \<Rightarrow> 'w \<Rightarrow> 'w) \<Rightarrow> ('w, 'x) Context \<Rightarrow> ('w, 'x) RetryFunc
     \<Rightarrow> 'w \<Rightarrow> ('x option \<times> 'w \<times> 'x event list) option" where
  "spec_Retry cvt time_Sleep ctx retryFunc w =
     map_option (\<lambda>(err, s). (err, world s, history s))
       (ExpTimer_Retry cvt time_Sleep ctx retryFunc
          \<lparr>timer = spec_default_timer, world = w, history = []\<rparr>)"

subsection \<open>Reading a history\<close>

text \<open>
  The histories a returning retry can leave: rounds of a call that asks for a retry, a
  cancellation check that finds nothing and a sleep; then either a call that stops, whose
  error is the result, or a call that asks for a retry and a check that finds the context
  done, whose error is the result.
\<close>

fun retry_trace :: "'x event list \<Rightarrow> 'x option \<Rightarrow> bool" where
  "retry_trace [Called False e] r = (r = e)"
| "retry_trace [Called True e, Cancelled c] r = (r = c)"
| "retry_trace (Called True e # NotCancelled # Slept d # rest) r = retry_trace rest r"
| "retry_trace _ r = False"

fun calls_of :: "'x event list \<Rightarrow> nat" where
  "calls_of [] = 0"
| "calls_of (Called b e # h) = Suc (calls_of h)"
| "calls_of (_ # h) = calls_of h"

fun sleeps_of :: "'x event list \<Rightarrow> Duration list" where
  "sleeps_of [] = []"
| "sleeps_of (Slept d # h) = d # sleeps_of h"
| "sleeps_of (_ # h) = sleeps_of h"

text \<open>The values of the first \<open>n\<close> calls of \<^verbatim>\<open>NextDuration\<close>, and the timer after them.\<close>

fun durations :: "(float64 \<Rightarrow> 64 word) \<Rightarrow> nat \<Rightarrow> ExpTimer \<Rightarrow> Duration list" where
  "durations cvt 0 e = []"
| "durations cvt (Suc n) e = (case NextDuration cvt e of (d, e') \<Rightarrow> d # durations cvt n e')"

fun advance :: "(float64 \<Rightarrow> 64 word) \<Rightarrow> nat \<Rightarrow> ExpTimer \<Rightarrow> ExpTimer" where
  "advance cvt 0 e = e"
| "advance cvt (Suc n) e = advance cvt n (snd (NextDuration cvt e))"


subsection \<open>The worlds of the tests\<close>

text \<open>
  The tests of the package run against a counter that the operation increments
  (\<^verbatim>\<open>retryCount\<close>) and a clock that sleeping advances; their contexts are done from a
  deadline on, or never.
\<close>

datatype error_value = Canceled | DeadlineExceeded | errorString string

record test_world =
  retryCount :: nat
  now :: int

definition clock_Sleep :: "Duration \<Rightarrow> test_world \<Rightarrow> test_world" where
  "clock_Sleep d w = w\<lparr>now := now w + max 0 (sint d)\<rparr>"


definition WithDeadline :: "int \<Rightarrow> (test_world, error_value) Context" where
  "WithDeadline t =
     \<lparr>Done = (\<lambda>w. t \<le> now w),
      Err = (\<lambda>w. if t \<le> now w then Some DeadlineExceeded else None)\<rparr>"

text \<open>The operation of the test that retries up to a limit, and the one that stops at once.\<close>

definition retry_up_to :: "nat \<Rightarrow> (test_world, error_value) RetryFunc" where
  "retry_up_to retryLimit w =
     (let w' = w\<lparr>retryCount := retryCount w + 1\<rparr>
      in if retryLimit < retryCount w' then ((False, None), w') else ((True, None), w'))"

definition always_retry :: "(test_world, error_value) RetryFunc" where
  "always_retry w = ((True, None), w)"

definition stop_with :: "error_value option \<Rightarrow> (test_world, error_value) RetryFunc" where
  "stop_with expectErr w = ((False, expectErr), w)"

section \<open>Evaluating the primitives\<close>

lemma bitlen_numeral_simps:
  "bitlen 1 = 1"
  "bitlen (numeral Num.One) = 1"
  "bitlen (numeral (Num.Bit0 n)) = bitlen (numeral n) + 1"
  "bitlen (numeral (Num.Bit1 n)) = bitlen (numeral n) + 1"
proof -
  show "bitlen 1 = 1" by (subst compute_bitlen) simp
  then show "bitlen (numeral Num.One) = 1" by simp
  show "bitlen (numeral (Num.Bit0 n)) = bitlen (numeral n) + 1"
    by (subst compute_bitlen) simp
  show "bitlen (numeral (Num.Bit1 n)) = bitlen (numeral n) + 1"
    by (subst compute_bitlen) simp
qed

lemmas f64_eval = float64_of_int64_def f64_round_def f64_pack_def rne_shift_def f64_mul_def
  isNaN_def isInf_def isZero_def isFinite_def significand_def exponent_def f64_trunc_def
  fits_int64_def int64_of_float64_def f64_Inf_def f64_NaN_def f64_const_def
  bitlen_numeral_simps Let_def

text \<open>
  Products and conversions whose float64 results are known: 0.1 times 3, a third times
  \<open>- 3\<close>, the least subnormal times 0.5 and times 1.5 (ties to even), the greatest finite
  value times 2, an infinity times zero; and the conversions of \<open>- 3\<close>, of the greatest
  int64 and of \<open>2 ^ 53 + 3\<close>.
\<close>

lemma f64_mul_known_products:
  "f64_mul \<lparr>sign_bit = False, exp_bits = 0x3FB, frac_bits = 0x999999999999A\<rparr>
           \<lparr>sign_bit = False, exp_bits = 0x400, frac_bits = 0x8000000000000\<rparr>
     = \<lparr>sign_bit = False, exp_bits = 0x3FD, frac_bits = 0x3333333333334\<rparr>"
  "f64_mul \<lparr>sign_bit = False, exp_bits = 0x3FD, frac_bits = 0x5555555555555\<rparr>
           \<lparr>sign_bit = True, exp_bits = 0x400, frac_bits = 0x8000000000000\<rparr>
     = \<lparr>sign_bit = True, exp_bits = 0x3FF, frac_bits = 0\<rparr>"
  "f64_mul \<lparr>sign_bit = False, exp_bits = 0, frac_bits = 1\<rparr>
           \<lparr>sign_bit = False, exp_bits = 0x3FE, frac_bits = 0\<rparr>
     = \<lparr>sign_bit = False, exp_bits = 0, frac_bits = 0\<rparr>"
  "f64_mul \<lparr>sign_bit = False, exp_bits = 0, frac_bits = 1\<rparr>
           \<lparr>sign_bit = False, exp_bits = 0x3FF, frac_bits = 0x8000000000000\<rparr>
     = \<lparr>sign_bit = False, exp_bits = 0, frac_bits = 2\<rparr>"
  "f64_mul \<lparr>sign_bit = False, exp_bits = 0x7FE, frac_bits = 0xFFFFFFFFFFFFF\<rparr>
           \<lparr>sign_bit = False, exp_bits = 0x400, frac_bits = 0\<rparr>
     = f64_Inf False"
  "f64_mul (f64_Inf True) \<lparr>sign_bit = False, exp_bits = 0, frac_bits = 0\<rparr> = f64_NaN"
  by (simp_all add: f64_eval)

lemma float64_of_int64_known:
  "float64_of_int64 (- 3) = \<lparr>sign_bit = True, exp_bits = 0x400, frac_bits = 0x8000000000000\<rparr>"
  "float64_of_int64 0x7FFFFFFFFFFFFFFF = \<lparr>sign_bit = False, exp_bits = 0x43E, frac_bits = 0\<rparr>"
  "float64_of_int64 0x20000000000003 = \<lparr>sign_bit = False, exp_bits = 0x434, frac_bits = 2\<rparr>"
  by (simp_all add: f64_eval)

lemma DefaultMultiplier_bits:
  "DefaultMultiplier = \<lparr>sign_bit = False, exp_bits = 1023, frac_bits = 0x8000000000000\<rparr>"
  by (simp add: DefaultMultiplier_def f64_eval)

lemma DefaultInitialInterval_ns: "DefaultInitialInterval = 500000000"
  by (simp add: DefaultInitialInterval_def Millisecond_def Microsecond_def Nanosecond_def)

lemma DefaultExpTimer_eq: "DefaultExpTimer = spec_default_timer"
  by (simp add: DefaultExpTimer_def NewExpTimer_def spec_default_timer_def
      DefaultMultiplier_bits DefaultInitialInterval_ns)

lemma NextDuration_default_1:
  "NextDuration cvt spec_default_timer = (500000000, spec_default_timer\<lparr>interval := 750000000\<rparr>)"
  by (simp add: NextDuration_def spec_default_timer_def f64_eval)

lemma NextDuration_default_2:
  "NextDuration cvt (spec_default_timer\<lparr>interval := 750000000\<rparr>) =
     (750000000, spec_default_timer\<lparr>interval := 1125000000\<rparr>)"
  by (simp add: NextDuration_def spec_default_timer_def f64_eval)

section \<open>The arithmetic of float64\<close>

text \<open>
  The exact value of a float64 in the rationals, and what packing, rounding, the product
  and the two conversions do to it: a value that float64 can hold is rounded to itself,
  rounding never crosses a float64 value, and the conversion to int64 truncates.
\<close>

lemma abs_f64_val: "\<bar>f64_val f\<bar> = of_nat (significand f) * 2 powi exponent f"
  by (simp add: f64_val_def abs_mult)

lemma significand_less: "significand f < 2 ^ 53"
proof -
  have "unat (frac_bits f) < 2 ^ 52"
    using unsigned_less[of "frac_bits f"] by simp
  then show ?thesis by (simp add: significand_def)
qed

lemma exponent_ge: "- 1074 \<le> exponent f"
proof -
  have "exp_bits f \<noteq> 0 \<Longrightarrow> 1 \<le> uint (exp_bits f)"
    using uint_0_iff[of "exp_bits f"] uint_nonnegative[of "exp_bits f"] by linarith
  then show ?thesis unfolding exponent_def by (cases "exp_bits f = 0") auto
qed

lemma f64_trunc_val: "f64_trunc f = trunc_rat (f64_val f)"
proof -
  define m where "m = int (significand f)"
  define e where "e = exponent f"
  define a where "a = (if 0 \<le> e then m * 2 ^ nat e else m div 2 ^ nat (- e))"
  have m0: "0 \<le> m" by (simp add: m_def)
  have mag: "\<lfloor>(of_int m :: rat) * 2 powi e\<rfloor> = a"
  proof (cases "0 \<le> e")
    case True
    then have "(2::rat) powi e = of_int (2 ^ nat e)"
      by (simp add: power_int_def)
    then have "(of_int m :: rat) * 2 powi e = of_int (m * 2 ^ nat e)" by simp
    then show ?thesis using True unfolding a_def by (metis floor_of_int)
  next
    case False
    then have "(2::rat) powi e = 1 / of_int (2 ^ nat (- e))"
      by (simp add: power_int_def field_simps)
    then have "(of_int m :: rat) * 2 powi e = of_int m / of_int (2 ^ nat (- e))" by simp
    then show ?thesis using False unfolding a_def by (simp only: floor_divide_of_int_eq if_False)
  qed
  have v: "f64_val f = (if sign_bit f then - 1 else 1) * (of_int m * 2 powi e)"
    by (simp add: f64_val_def m_def e_def)
  have t: "f64_trunc f = (if sign_bit f then - a else a)"
    by (simp add: f64_trunc_def a_def m_def e_def Let_def)
  have nn: "0 \<le> (of_int m :: rat) * 2 powi e" using m0 by simp
  define x where "x = (of_int m :: rat) * 2 powi e"
  have x0: "0 \<le> x" and fl: "\<lfloor>x\<rfloor> = a" using nn mag by (simp_all add: x_def)
  have "f64_trunc f = (if f64_val f < 0 then \<lceil>f64_val f\<rceil> else \<lfloor>f64_val f\<rfloor>)"
  proof (cases "sign_bit f")
    case True
    then have vx: "f64_val f = - x" and ta: "f64_trunc f = - a" using v t by (simp_all add: x_def)
    show ?thesis
    proof (cases "x = 0")
      case True
      with fl have "a = 0" by simp
      with True vx ta show ?thesis by simp
    next
      case False
      with x0 have "- x < 0" by simp
      moreover have "\<lceil>- x\<rceil> = - a" using fl by (simp add: ceiling_minus)
      ultimately show ?thesis using vx ta by simp
    qed
  next
    case False
    then have "f64_val f = x" and "f64_trunc f = a" using v t by (simp_all add: x_def)
    with x0 fl show ?thesis by simp
  qed
  then show ?thesis by (simp add: trunc_rat_def)
qed


lemma f64_pack_subnormal:
  assumes "m < 2 ^ 52"
  shows "isFinite (f64_pack s m e)" "sign_bit (f64_pack s m e) = s"
    "significand (f64_pack s m e) = m" "exponent (f64_pack s m e) = - 1074"
proof -
  from assms have ne: "m \<noteq> 2 ^ 53" by simp
  have p: "f64_pack s m e = \<lparr>sign_bit = s, exp_bits = 0, frac_bits = of_nat m\<rparr>"
    using assms ne by (simp add: f64_pack_def)
  have "unat (of_nat m :: 52 word) = m"
    using assms by (simp add: unat_of_nat take_bit_nat_eq_self)
  then show "isFinite (f64_pack s m e)" "sign_bit (f64_pack s m e) = s"
    "significand (f64_pack s m e) = m" "exponent (f64_pack s m e) = - 1074"
    by (simp_all add: p isFinite_def significand_def exponent_def)
qed

lemma exp_field:
  assumes "1 \<le> x" "x \<le> 2046"
  shows "(of_int x :: 11 word) \<noteq> 0" "(of_int x :: 11 word) \<noteq> 2047"
    "uint (of_int x :: 11 word) = x"
proof -
  show u: "uint (of_int x :: 11 word) = x"
    using assms by (simp add: uint_word_of_int)
  show "(of_int x :: 11 word) \<noteq> 0"
    using u assms by (metis uint_0_eq not_one_le_zero)
  show "(of_int x :: 11 word) \<noteq> 2047"
  proof
    assume "(of_int x :: 11 word) = 2047"
    then have "uint (of_int x :: 11 word) = uint (2047 :: 11 word)" by simp
    with u assms show False by simp
  qed
qed

lemma f64_pack_normal:
  assumes "2 ^ 52 \<le> m" "m < 2 ^ 53" "- 1074 \<le> e" "e \<le> 971"
  shows "isFinite (f64_pack s m e)" "sign_bit (f64_pack s m e) = s"
    "significand (f64_pack s m e) = m" "exponent (f64_pack s m e) = e"
proof -
  from assms have ne: "m \<noteq> 2 ^ 53" "\<not> m < 2 ^ 52" "\<not> 971 < e" by simp_all
  have p: "f64_pack s m e =
      \<lparr>sign_bit = s, exp_bits = of_int (e + 1075), frac_bits = of_nat (m - 2 ^ 52)\<rparr>"
    using ne by (simp add: f64_pack_def)
  have x: "1 \<le> e + 1075" "e + 1075 \<le> 2046" using assms by simp_all
  have "m - 2 ^ 52 < 2 ^ 52" using assms by simp
  then have fr: "unat (of_nat (m - 2 ^ 52) :: 52 word) = m - 2 ^ 52"
    by (simp add: unat_of_nat take_bit_nat_eq_self)
  show "isFinite (f64_pack s m e)" "sign_bit (f64_pack s m e) = s"
    using exp_field[OF x] by (simp_all add: p isFinite_def)
  show "significand (f64_pack s m e) = m"
    using exp_field[OF x] fr assms by (simp add: p significand_def)
  show "exponent (f64_pack s m e) = e"
    using exp_field[OF x] by (simp add: p exponent_def)
qed

lemma f64_pack_carry:
  assumes "- 1074 \<le> e" "e \<le> 970"
  shows "isFinite (f64_pack s (2 ^ 53) e)" "sign_bit (f64_pack s (2 ^ 53) e) = s"
    "significand (f64_pack s (2 ^ 53) e) = 2 ^ 52" "exponent (f64_pack s (2 ^ 53) e) = e + 1"
proof -
  have "f64_pack s (2 ^ 53) e = f64_pack s (2 ^ 52) (e + 1)"
    by (simp add: f64_pack_def)
  moreover have "(2::nat) ^ 52 \<le> 2 ^ 52" "(2::nat) ^ 52 < 2 ^ 53" "- 1074 \<le> e + 1" "e + 1 \<le> 971"
    using assms by simp_all
  ultimately show "isFinite (f64_pack s (2 ^ 53) e)" "sign_bit (f64_pack s (2 ^ 53) e) = s"
    "significand (f64_pack s (2 ^ 53) e) = 2 ^ 52" "exponent (f64_pack s (2 ^ 53) e) = e + 1"
    using f64_pack_normal[of "2 ^ 52" "e + 1" s] by simp_all
qed

lemma f64_pack_overflow:
  assumes "isFinite (f64_pack s m e)" "2 ^ 52 \<le> m"
  shows "(if m = 2 ^ 53 then e + 1 else e) \<le> 971"
proof (rule ccontr)
  assume "\<not> (if m = 2 ^ 53 then e + 1 else e) \<le> 971"
  with assms(2) have "f64_pack s m e = f64_Inf s"
    by (auto simp: f64_pack_def Let_def)
  with assms(1) show False by (simp add: isFinite_def f64_Inf_def)
qed


lemma two_powi_add: "(2::rat) powi (a + b) = 2 powi a * 2 powi b"
  by (simp add: power_int_add)

lemma two_powi_le_iff: "(2::rat) powi a \<le> 2 powi b \<longleftrightarrow> a \<le> b"
proof
  assume "(2::rat) powi a \<le> 2 powi b"
  show "a \<le> b"
  proof (rule ccontr)
    assume "\<not> a \<le> b"
    then have "b < a" by simp
    then have "(2::rat) powi b < 2 powi a" by (intro power_int_strict_increasing) simp_all
    with \<open>(2::rat) powi a \<le> 2 powi b\<close> show False by simp
  qed
next
  assume "a \<le> b"
  then show "(2::rat) powi a \<le> 2 powi b" by (intro power_int_increasing) simp_all
qed

lemma two_powi_less_iff: "(2::rat) powi a < 2 powi b \<longleftrightarrow> a < b"
  using two_powi_le_iff[of b a] by (simp add: not_le[symmetric])

lemma two_powi_nat: "(2::rat) powi (int n) = of_nat (2 ^ n)"
  by simp

lemma two_powi_pos: "0 < (2::rat) powi a"
  by simp

lemma sign_bit_f64_pack: "sign_bit (f64_pack s m e) = s"
  by (simp add: f64_pack_def f64_Inf_def Let_def)

lemma sign_bit_f64_round: "sign_bit (f64_round s M E) = s"
  by (simp add: f64_round_def sign_bit_f64_pack Let_def)

lemma f64_pack_abs_val:
  assumes m: "m \<le> 2 ^ 53" and e: "- 1074 \<le> e"
    and sub: "0 < m \<Longrightarrow> m < 2 ^ 52 \<Longrightarrow> e = - 1074"
    and fin: "isFinite (f64_pack s m e)"
  shows "\<bar>f64_val (f64_pack s m e)\<bar> = of_nat m * 2 powi e"
proof -
  consider "m = 0" | "0 < m" "m < 2 ^ 52" | "2 ^ 52 \<le> m" "m < 2 ^ 53" | "m = 2 ^ 53"
    using m by linarith
  then show ?thesis
  proof cases
    case 1
    then have "significand (f64_pack s m e) = 0"
      using f64_pack_subnormal(3)[of m s e] by simp
    with 1 show ?thesis by (simp add: abs_f64_val)
  next
    case 2
    with sub have "e = - 1074" by simp
    with 2 show ?thesis
      using f64_pack_subnormal(3,4)[of m s e] by (simp add: abs_f64_val)
  next
    case 3
    with fin have "e \<le> 971" using f64_pack_overflow[of s m e] by simp
    with 3 e show ?thesis
      using f64_pack_normal(3,4)[of m e s] by (simp add: abs_f64_val)
  next
    case 4
    with fin have "e \<le> 970" using f64_pack_overflow[of s m e] by simp
    with e have "significand (f64_pack s (2 ^ 53) e) = 2 ^ 52"
      "exponent (f64_pack s (2 ^ 53) e) = e + 1"
      using f64_pack_carry(3,4)[of e s] by simp_all
    then have "\<bar>f64_val (f64_pack s m e)\<bar> = of_nat (2 ^ 52) * 2 powi (e + 1)"
      using 4 by (simp add: abs_f64_val)
    also have "\<dots> = of_nat (2 ^ 52) * (2 powi e * 2 powi 1)"
      by (simp only: two_powi_add)
    also have "\<dots> = of_nat (2 ^ 53) * 2 powi e" by simp
    finally show ?thesis using 4 by simp
  qed
qed

lemma f64_pack_isFinite:
  assumes "m \<le> 2 ^ 53" "- 1074 \<le> e" "m < 2 ^ 52 \<or> e \<le> 970"
  shows "isFinite (f64_pack s m e)"
proof -
  consider "m < 2 ^ 52" | "2 ^ 52 \<le> m" "m < 2 ^ 53" | "m = 2 ^ 53"
    using assms(1) by linarith
  then show ?thesis
  proof cases
    case 1
    then show ?thesis by (rule f64_pack_subnormal(1))
  next
    case 2
    with assms show ?thesis using f64_pack_normal(1)[of m e s] by simp
  next
    case 3
    with assms show ?thesis using f64_pack_carry(1)[of e s] by simp
  qed
qed

lemma rne_shift_bounds: "M div 2 ^ n \<le> rne_shift M n" "rne_shift M n \<le> M div 2 ^ n + 1"
  by (simp_all add: rne_shift_def Let_def)

lemma rne_shift_exact: "2 ^ n dvd M \<Longrightarrow> rne_shift M n = M div 2 ^ n"
  by (simp add: rne_shift_def Let_def mod_eq_0_iff_dvd)


text \<open>\<open>rne_shift\<close> yields a nearest integer, and the even one of two nearest.\<close>

lemma rne_shift_nearest: "2 * \<bar>int (rne_shift M k) * 2 ^ k - int M\<bar> \<le> 2 ^ k"
proof -
  define q where "q = M div 2 ^ k"
  define r where "r = M mod 2 ^ k"
  have "M = q * 2 ^ k + r" unfolding q_def r_def by (rule div_mult_mod_eq[symmetric])
  then have "int M = int (q * 2 ^ k + r)" by (simp only:)
  then have M: "int M = int q * 2 ^ k + int r" by simp
  have "r < 2 ^ k" by (simp add: r_def)
  then have "int r < int (2 ^ k)" by (simp only: of_nat_less_iff)
  then have r: "int r < 2 ^ k" by simp
  define P where "P = (2::int) ^ k"
  have M': "int M = int q * P + int r" and r': "int r < P" and r0: "0 \<le> int r"
    using M r by (simp_all add: P_def)
  have up: "int (q + 1) * P - int M = P - int r" using M' by (simp add: algebra_simps)
  have dn: "int q * P - int M = - int r" using M' by simp
  have "int (2 * r) < int (2 ^ k) \<longleftrightarrow> 2 * r < 2 ^ k" "int (2 ^ k) < int (2 * r) \<longleftrightarrow> 2 ^ k < 2 * r"
    by (simp_all only: of_nat_less_iff)
  then have cmp: "2 * r < 2 ^ k \<longleftrightarrow> 2 * int r < P" "2 ^ k < 2 * r \<longleftrightarrow> P < 2 * int r"
    by (simp_all add: P_def)
  consider "2 * r < 2 ^ k" | "2 ^ k < 2 * r" | "2 * r = 2 ^ k" by linarith
  then have "2 * \<bar>int (rne_shift M k) * P - int M\<bar> \<le> P"
  proof cases
    case 1
    then have "rne_shift M k = q" by (simp add: rne_shift_def q_def r_def Let_def)
    with 1 dn cmp r0 show ?thesis by simp
  next
    case 2
    then have "rne_shift M k = q + 1" by (simp add: rne_shift_def q_def r_def Let_def)
    moreover from 2 cmp have "P < 2 * int r" by simp
    with r' have "2 * \<bar>P - int r\<bar> \<le> P" by (simp add: abs_if)
    ultimately show ?thesis using up by (simp only:)
  next
    case 3
    then have "int (2 * r) = int (2 ^ k)" by (simp only:)
    then have e: "2 * int r = P" by (simp add: P_def)
    from 3 have "rne_shift M k = q \<or> rne_shift M k = q + 1"
      by (simp add: rne_shift_def q_def r_def Let_def)
    then show ?thesis
    proof
      assume "rne_shift M k = q"
      with dn e r0 show ?thesis by simp
    next
      assume "rne_shift M k = q + 1"
      moreover from e r0 have "2 * \<bar>P - int r\<bar> \<le> P" by (simp add: abs_if)
      ultimately show ?thesis using up by (simp only:)
    qed
  qed
  then show ?thesis by (simp only: P_def)
qed

lemma rne_shift_tie_even: "2 * (M mod 2 ^ k) = 2 ^ k \<Longrightarrow> even (rne_shift M k)"
  by (simp add: rne_shift_def Let_def)

lemma bitlen_nat_bounds:
  assumes "0 < M"
  shows "1 \<le> bitlen (int M)" "M < 2 ^ nat (bitlen (int M))"
    "2 ^ nat (bitlen (int M) - 1) \<le> M"
proof -
  from assms have pos: "0 < int M" by simp
  from bitlen_bounds[OF pos]
  have lo: "2 ^ nat (bitlen (int M) - 1) \<le> int M" and hi: "int M < 2 ^ nat (bitlen (int M))"
    by simp_all
  from hi have "int M < int (2 ^ nat (bitlen (int M)))" by simp
  then show "M < 2 ^ nat (bitlen (int M))" by (simp only: of_nat_less_iff)
  from lo have "int (2 ^ nat (bitlen (int M) - 1)) \<le> int M" by simp
  then show "2 ^ nat (bitlen (int M) - 1) \<le> M" by (simp only: of_nat_le_iff)
  show "1 \<le> bitlen (int M)"
    using pos bitlen_eq_zero_iff[of "int M"] bitlen_nonneg[of "int M"] by linarith
qed

lemma f64_round_exact_branch:
  assumes M: "0 < M" and k: "k = max (bitlen (int M) - 53) (- 1074 - E)" and k0: "k \<le> 0"
  shows "f64_round s M E = f64_pack s (M * 2 ^ nat (- k)) (E + k)"
    and "M * 2 ^ nat (- k) < 2 ^ 53"
    and "- 1074 \<le> E + k"
    and "M * 2 ^ nat (- k) < 2 ^ 52 \<Longrightarrow> E + k = - 1074"
    and "(of_nat (M * 2 ^ nat (- k)) :: rat) * 2 powi (E + k) = of_nat M * 2 powi E"
proof -
  define b where "b = bitlen (int M)"
  note bl = bitlen_nat_bounds[OF M, folded b_def]
  have kb: "b - 53 \<le> k" and kE: "- 1074 - E \<le> k" using k by (simp_all add: b_def)
  have "f64_round s M E =
      (if k \<le> 0 then f64_pack s (M * 2 ^ nat (- k)) (E + k)
       else f64_pack s (rne_shift M (nat k)) (E + k))"
    by (simp only: f64_round_def Let_def k)
  with k0 show "f64_round s M E = f64_pack s (M * 2 ^ nat (- k)) (E + k)" by simp
  show "- 1074 \<le> E + k" using kE by simp
  have "nat b + nat (- k) \<le> 53" using kb k0 bl(1) by linarith
  then have le53: "(2::nat) ^ (nat b + nat (- k)) \<le> 2 ^ 53"
    by (intro power_increasing) simp_all
  have "M * 2 ^ nat (- k) < 2 ^ nat b * 2 ^ nat (- k)"
    using bl(2) by (intro mult_less_mono1) simp_all
  also have "\<dots> = 2 ^ (nat b + nat (- k))" by (simp only: power_add)
  also note le53
  finally show "M * 2 ^ nat (- k) < 2 ^ 53" .
  show "E + k = - 1074" if small: "M * 2 ^ nat (- k) < 2 ^ 52"
  proof (rule ccontr)
    assume "E + k \<noteq> - 1074"
    with k have "k = b - 53" by (simp add: b_def max_def split: if_splits)
    with k0 bl(1) have "nat (b - 1) + nat (- k) = 52" by linarith
    then have "(2::nat) ^ 52 = 2 ^ nat (b - 1) * 2 ^ nat (- k)"
      by (simp flip: power_add)
    also have "\<dots> \<le> M * 2 ^ nat (- k)" using bl(3) by simp
    finally show False using small by simp
  qed
  have "(2::rat) powi E = 2 powi (- k + (E + k))" by simp
  also have "\<dots> = 2 powi (- k) * 2 powi (E + k)" by (rule two_powi_add)
  also have "(2::rat) powi (- k) = 2 ^ nat (- k)"
    using k0 by (intro power_int_nonneg_exp) simp
  finally have "(2::rat) powi E = 2 ^ nat (- k) * 2 powi (E + k)" .
  then show "(of_nat (M * 2 ^ nat (- k)) :: rat) * 2 powi (E + k) = of_nat M * 2 powi E"
    by simp
qed

lemma f64_round_inexact_branch:
  assumes M: "0 < M" and k: "k = max (bitlen (int M) - 53) (- 1074 - E)" and k0: "0 < k"
  shows "f64_round s M E = f64_pack s (rne_shift M (nat k)) (E + k)"
    and "M div 2 ^ nat k < 2 ^ 53"
    and "- 1074 \<le> E + k"
    and "M div 2 ^ nat k < 2 ^ 52 \<Longrightarrow> E + k = - 1074"
    and "(of_nat (M div 2 ^ nat k) :: rat) * 2 powi (E + k) \<le> of_nat M * 2 powi E"
proof -
  define b where "b = bitlen (int M)"
  note bl = bitlen_nat_bounds[OF M, folded b_def]
  have kb: "b - 53 \<le> k" and kE: "- 1074 - E \<le> k" using k by (simp_all add: b_def)
  have "f64_round s M E =
      (if k \<le> 0 then f64_pack s (M * 2 ^ nat (- k)) (E + k)
       else f64_pack s (rne_shift M (nat k)) (E + k))"
    by (simp only: f64_round_def Let_def k)
  with k0 show "f64_round s M E = f64_pack s (rne_shift M (nat k)) (E + k)" by simp
  show "- 1074 \<le> E + k" using kE by simp
  have "nat b \<le> 53 + nat k" using kb k0 bl(1) by linarith
  then have "(2::nat) ^ nat b \<le> 2 ^ (53 + nat k)"
    by (intro power_increasing) simp_all
  with bl(2) have "M < 2 ^ 53 * 2 ^ nat k" by (simp add: power_add)
  then show "M div 2 ^ nat k < 2 ^ 53" by (rule less_mult_imp_div_less)
  show "E + k = - 1074" if small: "M div 2 ^ nat k < 2 ^ 52"
  proof (rule ccontr)
    assume "E + k \<noteq> - 1074"
    with k have "k = b - 53" by (simp add: b_def max_def split: if_splits)
    with k0 have "nat (b - 1) = 52 + nat k" by linarith
    with bl(3) have "2 ^ 52 * 2 ^ nat k \<le> M" by (simp add: power_add)
    then have "2 ^ 52 \<le> M div 2 ^ nat k"
      by (simp add: less_eq_div_iff_mult_less_eq)
    with small show False by simp
  qed
  have "M div 2 ^ nat k * 2 ^ nat k \<le> M" by simp
  then have "(of_nat (M div 2 ^ nat k * 2 ^ nat k) :: rat) \<le> of_nat M"
    by (simp only: of_nat_le_iff)
  then have "(of_nat (M div 2 ^ nat k * 2 ^ nat k) :: rat) * 2 powi E \<le> of_nat M * 2 powi E"
    by (intro mult_right_mono) simp_all
  moreover have "(2::rat) powi (E + k) = 2 powi k * 2 powi E"
    by (simp only: two_powi_add mult.commute)
  moreover have "(2::rat) powi k = 2 ^ nat k"
    using k0 by (intro power_int_nonneg_exp) simp
  ultimately show "(of_nat (M div 2 ^ nat k) :: rat) * 2 powi (E + k) \<le> of_nat M * 2 powi E"
    by (simp add: mult.assoc)
qed


lemma f64_round_zero:
  "isFinite (f64_round s 0 E)" "f64_val (f64_round s 0 E) = 0"
proof -
  have "f64_round s 0 E = f64_pack s 0 (E + max (- 53) (- 1074 - E))"
    by (simp add: f64_round_def rne_shift_def Let_def)
  moreover have "isFinite (f64_pack s 0 e)" "significand (f64_pack s 0 e) = 0" for e
    using f64_pack_subnormal(1,3)[of 0 s e] by simp_all
  ultimately show "isFinite (f64_round s 0 E)" "f64_val (f64_round s 0 E) = 0"
    by (simp_all add: f64_val_def)
qed

lemma f64_round_abs_val_exact:
  assumes M: "0 < M" and k: "k = max (bitlen (int M) - 53) (- 1074 - E)" and k0: "k \<le> 0"
    and fin: "isFinite (f64_round s M E)"
  shows "\<bar>f64_val (f64_round s M E)\<bar> = of_nat M * 2 powi E"
proof -
  note br = f64_round_exact_branch[OF M k k0]
  have "\<bar>f64_val (f64_pack s (M * 2 ^ nat (- k)) (E + k))\<bar>
      = of_nat (M * 2 ^ nat (- k)) * 2 powi (E + k)"
    using br(2,3,4) fin by (intro f64_pack_abs_val) (simp_all add: br(1))
  then show ?thesis by (simp only: br(1) br(5))
qed

lemma f64_round_abs_val_inexact:
  assumes M: "0 < M" and k: "k = max (bitlen (int M) - 53) (- 1074 - E)" and k0: "0 < k"
    and fin: "isFinite (f64_round s M E)"
  shows "\<bar>f64_val (f64_round s M E)\<bar> = of_nat (rne_shift M (nat k)) * 2 powi (E + k)"
proof -
  note br = f64_round_inexact_branch[OF M k k0]
  note rb = rne_shift_bounds[of M "nat k"]
  have "rne_shift M (nat k) \<le> 2 ^ 53" using br(2) rb(2) by simp
  moreover have "E + k = - 1074" if "rne_shift M (nat k) < 2 ^ 52"
    using that rb(1) br(4) by simp
  ultimately have "\<bar>f64_val (f64_pack s (rne_shift M (nat k)) (E + k))\<bar>
      = of_nat (rne_shift M (nat k)) * 2 powi (E + k)"
    using br(3) fin by (intro f64_pack_abs_val) (simp_all add: br(1))
  then show ?thesis by (simp only: br(1))
qed

lemma f64_round_lower:
  assumes fin: "isFinite (f64_round s M E)"
    and ma: "ma < 2 ^ 53" and ea: "- 1074 \<le> ea"
    and le: "(of_nat ma :: rat) * 2 powi ea \<le> of_nat M * 2 powi E"
  shows "of_nat ma * 2 powi ea \<le> \<bar>f64_val (f64_round s M E)\<bar>"
proof (cases "M = 0")
  case True
  with le have "(of_nat ma :: rat) * 2 powi ea \<le> 0" by simp
  then show ?thesis by (rule order_trans) simp
next
  case False
  then have M: "0 < M" by simp
  define k where "k = max (bitlen (int M) - 53) (- 1074 - E)"
  show ?thesis
  proof (cases "k \<le> 0")
    case True
    from f64_round_abs_val_exact[OF M k_def True fin] le show ?thesis by simp
  next
    case False
    then have k0: "0 < k" by simp
    note br = f64_round_inexact_branch[OF M k_def k0]
    note rb = rne_shift_bounds[of M "nat k"]
    define g where "g = E + k"
    define q' where "q' = rne_shift M (nat k)"
    have val: "\<bar>f64_val (f64_round s M E)\<bar> = of_nat q' * 2 powi g"
      using f64_round_abs_val_inexact[OF M k_def k0 fin] by (simp add: q'_def g_def)
    have kn: "(2::rat) powi k = 2 ^ nat k"
      using k0 by (intro power_int_nonneg_exp) simp
    show ?thesis
    proof (cases "g \<le> ea")
      case True
      define w where "w = ma * 2 ^ nat (ea - g)"
      have "(2::rat) powi ea = 2 powi (ea - g + g)" by simp
      also have "\<dots> = 2 powi (ea - g) * 2 powi g" by (rule two_powi_add)
      also have "(2::rat) powi (ea - g) = 2 ^ nat (ea - g)"
        using True by (intro power_int_nonneg_exp) simp
      finally have wv: "(of_nat ma :: rat) * 2 powi ea = of_nat w * 2 powi g"
        by (simp add: w_def)
      have "(2::rat) powi g = 2 powi E * 2 powi k" unfolding g_def by (rule two_powi_add)
      then have "(of_nat w :: rat) * 2 powi g = of_nat (w * 2 ^ nat k) * 2 powi E"
        by (simp add: kn)
      with wv le have "(of_nat (w * 2 ^ nat k) :: rat) * 2 powi E \<le> of_nat M * 2 powi E"
        by simp
      then have "(of_nat (w * 2 ^ nat k) :: rat) \<le> of_nat M"
        by (simp only: mult_le_cancel_right_pos[OF two_powi_pos])
      then have "w * 2 ^ nat k \<le> M" by (simp only: of_nat_le_iff)
      then have "w \<le> M div 2 ^ nat k" by (simp add: less_eq_div_iff_mult_less_eq)
      with rb(1) have "w \<le> q'" by (simp add: q'_def)
      then have "(of_nat w :: rat) \<le> of_nat q'" by (simp only: of_nat_le_iff)
      then have "(of_nat w :: rat) * 2 powi g \<le> of_nat q' * 2 powi g"
        by (intro mult_right_mono) simp_all
      with wv val show ?thesis by simp
    next
      case False
      then have "g \<noteq> - 1074" using ea by simp
      with br(4) have "2 ^ 52 \<le> M div 2 ^ nat k" by (auto simp: g_def not_less[symmetric])
      with rb(1) have "2 ^ 52 \<le> q'" by (simp add: q'_def)
      then have "(of_nat (2 ^ 52) :: rat) \<le> of_nat q'" by (simp only: of_nat_le_iff)
      then have big: "(2 ^ 52 :: rat) * 2 powi g \<le> of_nat q' * 2 powi g"
        by (intro mult_right_mono) simp_all
      from ma have "(of_nat ma :: rat) \<le> of_nat (2 ^ 53)" by (simp only: of_nat_le_iff)
      then have "(of_nat ma :: rat) * 2 powi ea \<le> 2 ^ 53 * 2 powi ea"
        by (intro mult_right_mono) simp_all
      also have "\<dots> = 2 ^ 52 * (2 powi ea * 2 powi 1)" by simp
      also have "\<dots> = 2 ^ 52 * 2 powi (ea + 1)" by (simp only: two_powi_add)
      also have "\<dots> \<le> 2 ^ 52 * 2 powi g"
        using False by (intro mult_left_mono) (simp_all add: two_powi_le_iff)
      also note big
      finally show ?thesis using val by simp
    qed
  qed
qed


lemma f64_round_upper:
  assumes fin: "isFinite (f64_round s M E)"
    and ma: "ma < 2 ^ 53" and ea: "- 1074 \<le> ea"
    and le: "(of_nat M :: rat) * 2 powi E \<le> of_nat ma * 2 powi ea"
  shows "\<bar>f64_val (f64_round s M E)\<bar> \<le> of_nat ma * 2 powi ea"
proof (cases "M = 0")
  case True
  then show ?thesis by (simp add: f64_round_zero)
next
  case False
  then have M: "0 < M" by simp
  define k where "k = max (bitlen (int M) - 53) (- 1074 - E)"
  show ?thesis
  proof (cases "k \<le> 0")
    case True
    from f64_round_abs_val_exact[OF M k_def True fin] le show ?thesis by simp
  next
    case False
    then have k0: "0 < k" by simp
    note br = f64_round_inexact_branch[OF M k_def k0]
    note rb = rne_shift_bounds[of M "nat k"]
    define g where "g = E + k"
    define q' where "q' = rne_shift M (nat k)"
    have val: "\<bar>f64_val (f64_round s M E)\<bar> = of_nat q' * 2 powi g"
      using f64_round_abs_val_inexact[OF M k_def k0 fin] by (simp add: q'_def g_def)
    have kn: "(2::rat) powi k = 2 ^ nat k"
      using k0 by (intro power_int_nonneg_exp) simp
    have gE: "(2::rat) powi g = 2 powi E * 2 powi k" unfolding g_def by (rule two_powi_add)
    show ?thesis
    proof (cases "g \<le> ea")
      case True
      define w where "w = ma * 2 ^ nat (ea - g)"
      have "(2::rat) powi ea = 2 powi (ea - g + g)" by simp
      also have "\<dots> = 2 powi (ea - g) * 2 powi g" by (rule two_powi_add)
      also have "(2::rat) powi (ea - g) = 2 ^ nat (ea - g)"
        using True by (intro power_int_nonneg_exp) simp
      finally have wv: "(of_nat ma :: rat) * 2 powi ea = of_nat w * 2 powi g"
        by (simp add: w_def)
      have "(of_nat w :: rat) * 2 powi g = of_nat (w * 2 ^ nat k) * 2 powi E"
        by (simp add: gE kn)
      with wv le have "(of_nat M :: rat) * 2 powi E \<le> of_nat (w * 2 ^ nat k) * 2 powi E"
        by simp
      then have "(of_nat M :: rat) \<le> of_nat (w * 2 ^ nat k)"
        by (simp only: mult_le_cancel_right_pos[OF two_powi_pos])
      then have Mw: "M \<le> w * 2 ^ nat k" by (simp only: of_nat_le_iff)
      have "q' \<le> w"
      proof (cases "2 ^ nat k dvd M")
        case True
        then have "q' = M div 2 ^ nat k" unfolding q'_def by (rule rne_shift_exact)
        also have "\<dots> \<le> w * 2 ^ nat k div 2 ^ nat k" using Mw by (rule div_le_mono)
        finally show ?thesis by simp
      next
        case False
        then have "M \<noteq> w * 2 ^ nat k" by auto
        with Mw have "M < w * 2 ^ nat k" by simp
        then have "M div 2 ^ nat k < w" by (rule less_mult_imp_div_less)
        with rb(2) show ?thesis by (simp add: q'_def)
      qed
      then have "(of_nat q' :: rat) \<le> of_nat w" by (simp only: of_nat_le_iff)
      then have "(of_nat q' :: rat) * 2 powi g \<le> of_nat w * 2 powi g"
        by (intro mult_right_mono) simp_all
      with wv val show ?thesis by simp
    next
      case False
      then have "g \<noteq> - 1074" using ea by simp
      with br(4) have "2 ^ 52 \<le> M div 2 ^ nat k" by (auto simp: g_def not_less[symmetric])
      then have "(of_nat (2 ^ 52) :: rat) \<le> of_nat (M div 2 ^ nat k)"
        by (simp only: of_nat_le_iff)
      then have "(of_nat (2 ^ 52) :: rat) * 2 powi g \<le> of_nat (M div 2 ^ nat k) * 2 powi g"
        by (intro mult_right_mono) simp_all
      also have "\<dots> \<le> of_nat M * 2 powi E" using br(5) by (simp only: g_def)
      finally have big: "(2 ^ 52 :: rat) * 2 powi g \<le> of_nat M * 2 powi E" by simp
      from ma have "(of_nat ma :: rat) < of_nat (2 ^ 53)" by (simp only: of_nat_less_iff)
      then have "(of_nat ma :: rat) * 2 powi ea < 2 ^ 53 * 2 powi ea"
        by (intro mult_strict_right_mono) simp_all
      also have "\<dots> = 2 ^ 52 * (2 powi ea * 2 powi 1)" by simp
      also have "\<dots> = 2 ^ 52 * 2 powi (ea + 1)" by (simp only: two_powi_add)
      also have "\<dots> \<le> 2 ^ 52 * 2 powi g"
        using False by (intro mult_left_mono) (simp_all add: two_powi_le_iff)
      also note big
      finally have "(of_nat ma :: rat) * 2 powi ea < of_nat M * 2 powi E" .
      with le show ?thesis by simp
    qed
  qed
qed

text \<open>
  Rounding is faithful: no float64 lies strictly between the exact value and its rounding.
\<close>

lemma f64_round_faithful:
  assumes "isFinite (f64_round s M E)"
  shows "\<bar>f64_val g\<bar> \<le> of_nat M * 2 powi E \<Longrightarrow> \<bar>f64_val g\<bar> \<le> \<bar>f64_val (f64_round s M E)\<bar>"
    and "of_nat M * 2 powi E \<le> \<bar>f64_val g\<bar> \<Longrightarrow> \<bar>f64_val (f64_round s M E)\<bar> \<le> \<bar>f64_val g\<bar>"
  using f64_round_lower[OF assms significand_less[of g] exponent_ge[of g]]
    f64_round_upper[OF assms significand_less[of g] exponent_ge[of g]]
  by (simp_all only: abs_f64_val)

text \<open>
  Rounding is to nearest: the result is within half a unit of its last place of the exact
  value, and no float64 value is nearer to the exact value than the result.
\<close>

lemma f64_round_half_grid:
  assumes M: "0 < M" and k: "k = max (bitlen (int M) - 53) (- 1074 - E)" and k0: "0 < k"
    and fin: "isFinite (f64_round s M E)"
  shows "2 * \<bar>\<bar>f64_val (f64_round s M E)\<bar> - of_nat M * 2 powi E\<bar> \<le> 2 powi (E + k)"
proof -
  define q' where "q' = rne_shift M (nat k)"
  have val: "\<bar>f64_val (f64_round s M E)\<bar> = of_nat q' * 2 powi (E + k)"
    using f64_round_abs_val_inexact[OF M k k0 fin] by (simp add: q'_def)
  have kn: "(2::rat) powi k = 2 ^ nat k"
    using k0 by (intro power_int_nonneg_exp) simp
  have gE: "(2::rat) powi (E + k) = 2 ^ nat k * 2 powi E"
    by (simp only: two_powi_add kn mult.commute)
  have "2 * \<bar>int q' * 2 ^ nat k - int M\<bar> \<le> 2 ^ nat k"
    unfolding q'_def by (rule rne_shift_nearest)
  then have "rat_of_int (2 * \<bar>int q' * 2 ^ nat k - int M\<bar>) \<le> rat_of_int (2 ^ nat k)"
    by (simp only: of_int_le_iff)
  then have "2 * \<bar>rat_of_nat q' * 2 ^ nat k - rat_of_nat M\<bar> \<le> 2 ^ nat k"
    by simp
  then have half: "\<bar>rat_of_nat q' * 2 ^ nat k - rat_of_nat M\<bar> \<le> 2 ^ nat k / 2"
    by simp
  define T where "T = (2::rat) powi E"
  have T: "0 < T" by (simp add: T_def)
  have "\<bar>rat_of_nat q' * (2 ^ nat k * T) - rat_of_nat M * T\<bar>
      = \<bar>(rat_of_nat q' * 2 ^ nat k - rat_of_nat M) * T\<bar>"
    by (simp add: algebra_simps)
  also have "\<dots> = \<bar>rat_of_nat q' * 2 ^ nat k - rat_of_nat M\<bar> * T"
    using T by (simp add: abs_mult)
  also have "\<dots> \<le> 2 ^ nat k / 2 * T"
    using half T by (intro mult_right_mono) simp_all
  finally have "2 * \<bar>rat_of_nat q' * (2 ^ nat k * T) - rat_of_nat M * T\<bar> \<le> 2 ^ nat k * T"
    by simp
  then show ?thesis by (simp only: val gE T_def)
qed


lemma f64_round_nearest:
  assumes fin: "isFinite (f64_round s M E)"
  shows "\<bar>\<bar>f64_val (f64_round s M E)\<bar> - of_nat M * 2 powi E\<bar>
      \<le> \<bar>\<bar>f64_val g\<bar> - of_nat M * 2 powi E\<bar>"
proof (cases "M = 0")
  case True
  then show ?thesis by (simp add: f64_round_zero)
next
  case False
  then have M: "0 < M" by simp
  define k where "k = max (bitlen (int M) - 53) (- 1074 - E)"
  show ?thesis
  proof (cases "k \<le> 0")
    case True
    from f64_round_abs_val_exact[OF M k_def True fin] show ?thesis by simp
  next
    case False
    then have k0: "0 < k" by simp
    note br = f64_round_inexact_branch[OF M k_def k0]
    define G where "G = (2::rat) powi (E + k)"
    define X where "X = rat_of_nat M * 2 powi E"
    define R where "R = \<bar>f64_val (f64_round s M E)\<bar>"
    define V where "V = \<bar>f64_val g\<bar>"
    define q' where "q' = rne_shift M (nat k)"
    have G: "0 < G" by (simp add: G_def)
    have half: "2 * \<bar>R - X\<bar> \<le> G"
      unfolding R_def X_def G_def by (rule f64_round_half_grid[OF M k_def k0 fin])
    have Rq: "R = of_nat q' * G"
      unfolding R_def G_def q'_def by (rule f64_round_abs_val_inexact[OF M k_def k0 fin])
    have Vg: "V = of_nat (significand g) * 2 powi exponent g"
      unfolding V_def by (rule abs_f64_val)
    have "\<bar>R - X\<bar> \<le> \<bar>V - X\<bar>"
    proof (cases "E + k \<le> exponent g")
      case True
      define w where "w = significand g * 2 ^ nat (exponent g - (E + k))"
      have "(2::rat) powi exponent g = 2 powi (exponent g - (E + k) + (E + k))" by simp
      also have "\<dots> = 2 powi (exponent g - (E + k)) * 2 powi (E + k)" by (rule two_powi_add)
      also have "(2::rat) powi (exponent g - (E + k)) = 2 ^ nat (exponent g - (E + k))"
        using True by (intro power_int_nonneg_exp) simp
      finally have Vw: "V = of_nat w * G" by (simp add: Vg w_def G_def)
      show ?thesis
      proof (cases "w = q'")
        case True
        then show ?thesis by (simp add: Vw Rq)
      next
        case False
        then have "1 \<le> \<bar>int w - int q'\<bar>" by simp
        then have "rat_of_int 1 \<le> rat_of_int \<bar>int w - int q'\<bar>" by (simp only: of_int_le_iff)
        then have "1 \<le> \<bar>rat_of_nat w - rat_of_nat q'\<bar>" by simp
        then have "1 * G \<le> \<bar>rat_of_nat w - rat_of_nat q'\<bar> * G"
          using G by (intro mult_right_mono) simp_all
        also have "\<dots> = \<bar>(rat_of_nat w - rat_of_nat q') * G\<bar>"
          using G by (simp add: abs_mult)
        also have "\<dots> = \<bar>V - R\<bar>" by (simp add: Vw Rq algebra_simps)
        finally have "G \<le> \<bar>V - R\<bar>" by simp
        with half show ?thesis by (simp add: abs_if split: if_splits)
      qed
    next
      case False
      then have "E + k \<noteq> - 1074" using exponent_ge[of g] by simp
      with br(4) have "2 ^ 52 \<le> M div 2 ^ nat k" by (auto simp: not_less[symmetric])
      then have "(of_nat (2 ^ 52) :: rat) \<le> of_nat (M div 2 ^ nat k)"
        by (simp only: of_nat_le_iff)
      then have "(of_nat (2 ^ 52) :: rat) * G \<le> of_nat (M div 2 ^ nat k) * G"
        using G by (intro mult_right_mono) simp_all
      also have "\<dots> \<le> X" using br(5) by (simp only: G_def X_def)
      finally have big: "2 ^ 52 * G \<le> X" by simp
      from False have "exponent g \<le> E + k + (- 1)" by simp
      then have "(2::rat) powi exponent g \<le> 2 powi (E + k + (- 1))"
        by (simp only: two_powi_le_iff)
      also have "\<dots> = G * 2 powi (- 1)" unfolding G_def by (rule two_powi_add)
      finally have e: "(2::rat) powi exponent g \<le> G / 2" by (simp add: power_int_minus)
      have "significand g \<le> 2 ^ 53 - 1" using significand_less[of g] by simp
      then have "(of_nat (significand g) :: rat) \<le> of_nat (2 ^ 53 - 1)"
        by (simp only: of_nat_le_iff)
      then have "V \<le> of_nat (2 ^ 53 - 1) * 2 powi exponent g"
        unfolding Vg by (intro mult_right_mono) simp_all
      also have "\<dots> \<le> of_nat (2 ^ 53 - 1) * (G / 2)"
        using e by (intro mult_left_mono) simp_all
      also have "\<dots> = 2 ^ 52 * G - G / 2" by (simp add: algebra_simps)
      finally have "V \<le> 2 ^ 52 * G - G / 2" .
      with big half show ?thesis by (simp add: abs_if split: if_splits)
    qed
    then show ?thesis by (simp only: R_def V_def X_def)
  qed
qed

lemma f64_round_exact:
  assumes fin: "isFinite (f64_round s M E)"
    and rep: "(of_nat M :: rat) * 2 powi E = of_nat m' * 2 powi e'"
    and m': "m' < 2 ^ 53" and e': "- 1074 \<le> e'"
  shows "\<bar>f64_val (f64_round s M E)\<bar> = of_nat M * 2 powi E"
proof (cases "M = 0")
  case True
  then show ?thesis by (simp add: f64_round_zero)
next
  case False
  then have M: "0 < M" by simp
  define k where "k = max (bitlen (int M) - 53) (- 1074 - E)"
  show ?thesis
  proof (cases "k \<le> 0")
    case True
    from f64_round_abs_val_exact[OF M k_def True fin] show ?thesis .
  next
    case False
    then have k0: "0 < k" by simp
    define b where "b = bitlen (int M)"
    note bl = bitlen_nat_bounds[OF M, folded b_def]
    have kd: "k \<le> e' - E"
    proof (cases "k = b - 53")
      case True
      with k0 have "nat (b - 1) = 52 + nat k" by linarith
      with bl(3) have "2 ^ (52 + nat k) \<le> M" by simp
      then have "(of_nat (2 ^ (52 + nat k)) :: rat) \<le> of_nat M" by (simp only: of_nat_le_iff)
      then have "(of_nat (2 ^ (52 + nat k)) :: rat) * 2 powi E \<le> of_nat M * 2 powi E"
        by (intro mult_right_mono) simp_all
      moreover have "(of_nat (2 ^ (52 + nat k)) :: rat) = 2 powi (52 + k)"
        using k0 by (simp add: power_int_nonneg_exp nat_add_distrib)
      ultimately have "(2::rat) powi (52 + k) * 2 powi E \<le> of_nat m' * 2 powi e'"
        using rep by simp
      also have "(of_nat m' :: rat) * 2 powi e' < of_nat (2 ^ 53) * 2 powi e'"
        using m' by (intro mult_strict_right_mono) (simp_all only: of_nat_less_iff two_powi_pos)
      also have "(of_nat (2 ^ 53) :: rat) = 2 powi 53" by simp
      finally have "(2::rat) powi (52 + k + E) < 2 powi (53 + e')"
        by (simp only: two_powi_add)
      then have "52 + k + E < 53 + e'" by (simp only: two_powi_less_iff)
      then show ?thesis by simp
    next
      case False
      then have "k = - 1074 - E" by (simp add: k_def b_def max_def split: if_splits)
      with e' show ?thesis by simp
    qed
    define d where "d = nat (e' - E)"
    have dk: "nat k \<le> d" using kd k0 by (simp add: d_def)
    have "(2::rat) powi e' = 2 powi (e' - E + E)" by simp
    also have "\<dots> = 2 powi (e' - E) * 2 powi E" by (rule two_powi_add)
    also have "(2::rat) powi (e' - E) = 2 ^ d"
      unfolding d_def using kd k0 by (intro power_int_nonneg_exp) simp
    finally have "(of_nat M :: rat) * 2 powi E = of_nat (m' * 2 ^ d) * 2 powi E"
      using rep by simp
    then have "(of_nat M :: rat) = of_nat (m' * 2 ^ d)"
      using two_powi_pos[of E] by (simp only: mult_cancel_right) simp
    then have Md: "M = m' * 2 ^ d" by (simp only: of_nat_eq_iff)
    have "(2::nat) ^ nat k dvd 2 ^ d" using dk by (rule le_imp_power_dvd)
    then have dv: "2 ^ nat k dvd M" unfolding Md by (rule dvd_mult)
    then have q: "rne_shift M (nat k) = M div 2 ^ nat k" by (rule rne_shift_exact)
    from dv have "M div 2 ^ nat k * 2 ^ nat k = M" by simp
    then have "(of_nat M :: rat) = of_nat (M div 2 ^ nat k) * 2 ^ nat k"
      by (metis of_nat_mult of_nat_numeral of_nat_power)
    moreover have "(2::rat) powi (E + k) = 2 powi k * 2 powi E"
      by (simp only: two_powi_add mult.commute)
    moreover have "(2::rat) powi k = 2 ^ nat k"
      using k0 by (intro power_int_nonneg_exp) simp
    ultimately have "(of_nat (M div 2 ^ nat k) :: rat) * 2 powi (E + k) = of_nat M * 2 powi E"
      by (simp add: mult.assoc)
    with f64_round_abs_val_inexact[OF M k_def k0 fin] q show ?thesis by simp
  qed
qed

lemma f64_round_isFinite:
  assumes small: "(of_nat M :: rat) * 2 powi E \<le> 2 ^ 64"
  shows "isFinite (f64_round s M E)"
proof (cases "M = 0")
  case True
  then show ?thesis by (simp add: f64_round_zero)
next
  case False
  then have M: "0 < M" by simp
  define k where "k = max (bitlen (int M) - 53) (- 1074 - E)"
  have bound: "g \<le> 970" if "(2 ^ 51 :: rat) * 2 powi g \<le> of_nat M * 2 powi E" for g
  proof -
    from that small have "(2 ^ 51 :: rat) * 2 powi g \<le> 2 ^ 64" by (rule order_trans)
    moreover have "(2 ^ 51 :: rat) * 2 powi g = 2 powi (51 + g)"
      by (simp add: two_powi_add)
    moreover have "(2 ^ 64 :: rat) = 2 powi 64" by simp
    ultimately have "(2::rat) powi (51 + g) \<le> 2 powi 64" by (simp only:)
    then have "51 + g \<le> 64" by (simp only: two_powi_le_iff)
    then show ?thesis by simp
  qed
  show ?thesis
  proof (cases "k \<le> 0")
    case True
    note br = f64_round_exact_branch[OF M k_def True]
    have "M * 2 ^ nat (- k) < 2 ^ 52 \<or> E + k \<le> 970"
    proof (cases "M * 2 ^ nat (- k) < 2 ^ 52")
      case False
      then have "(of_nat (2 ^ 51) :: rat) \<le> of_nat (M * 2 ^ nat (- k))"
        by (simp only: of_nat_le_iff) simp
      then have "(of_nat (2 ^ 51) :: rat) * 2 powi (E + k)
          \<le> of_nat (M * 2 ^ nat (- k)) * 2 powi (E + k)"
        by (intro mult_right_mono) simp_all
      then have "(2 ^ 51 :: rat) * 2 powi (E + k) \<le> of_nat M * 2 powi E"
        by (simp only: br(5)) simp
      then show ?thesis using bound by simp
    qed simp
    then show ?thesis
      using br(2,3) by (simp only: br(1)) (intro f64_pack_isFinite, simp_all)
  next
    case False
    then have k0: "0 < k" by simp
    note br = f64_round_inexact_branch[OF M k_def k0]
    note rb = rne_shift_bounds[of M "nat k"]
    have "rne_shift M (nat k) < 2 ^ 52 \<or> E + k \<le> 970"
    proof (cases "rne_shift M (nat k) < 2 ^ 52")
      case False
      with rb(2) have "2 ^ 51 \<le> M div 2 ^ nat k" by simp
      then have "(of_nat (2 ^ 51) :: rat) \<le> of_nat (M div 2 ^ nat k)"
        by (simp only: of_nat_le_iff)
      then have "(of_nat (2 ^ 51) :: rat) * 2 powi (E + k)
          \<le> of_nat (M div 2 ^ nat k) * 2 powi (E + k)"
        by (intro mult_right_mono) simp_all
      then have "(2 ^ 51 :: rat) * 2 powi (E + k)
          \<le> of_nat (M div 2 ^ nat k) * 2 powi (E + k)"
        by simp
      from this br(5) have "(2 ^ 51 :: rat) * 2 powi (E + k) \<le> of_nat M * 2 powi E"
        by (rule order_trans)
      then show ?thesis using bound by simp
    qed simp
    moreover have "rne_shift M (nat k) \<le> 2 ^ 53" using br(2) rb(2) by simp
    ultimately show ?thesis
      using br(3) by (simp only: br(1)) (intro f64_pack_isFinite, simp_all)
  qed
qed

lemma f64_val_sign_abs:
  "f64_val f = (if sign_bit f then - \<bar>f64_val f\<bar> else \<bar>f64_val f\<bar>)"
  by (simp add: abs_f64_val f64_val_def)

lemma sint_word_of_int_64:
  assumes "- (2 ^ 63) \<le> x" "x < 2 ^ 63"
  shows "sint (word_of_int x :: 64 word) = x"
  using assms by (simp add: sint_sbintrunc' signed_take_bit_int_eq_self)

lemma abs_sint_64: "\<bar>sint (i :: 64 word)\<bar> \<le> 2 ^ 63"
  using sint_ge[of i] sint_lt[of i] by simp

lemma isFinite_float64_of_int64: "isFinite (float64_of_int64 i)"
proof -
  have "\<bar>sint i\<bar> \<le> int (2 ^ 63)" using abs_sint_64[of i] by simp
  then have "nat \<bar>sint i\<bar> \<le> 2 ^ 63" by (simp only: nat_le_iff)
  then have "(of_nat (nat \<bar>sint i\<bar>) :: rat) \<le> of_nat (2 ^ 63)" by (simp only: of_nat_le_iff)
  also have "(of_nat (2 ^ 63) :: rat) \<le> 2 ^ 64" by simp
  finally have "(of_nat (nat \<bar>sint i\<bar>) :: rat) * 2 powi 0 \<le> 2 ^ 64" by simp
  then show ?thesis unfolding float64_of_int64_def by (rule f64_round_isFinite)
qed

lemma sign_bit_float64_of_int64: "sign_bit (float64_of_int64 i) = (sint i < 0)"
  by (simp add: float64_of_int64_def sign_bit_f64_round)

lemma float64_of_int64_exact:
  assumes "\<bar>sint i\<bar> \<le> 2 ^ 53"
  shows "f64_val (float64_of_int64 i) = of_int (sint i)"
proof -
  define x where "x = sint i"
  define M where "M = nat \<bar>x\<bar>"
  define A where "A = float64_of_int64 i"
  have M: "M \<le> 2 ^ 53" using assms by (simp add: M_def x_def)
  have A: "A = f64_round (x < 0) M 0"
    by (simp add: A_def float64_of_int64_def M_def x_def)
  have fin: "isFinite (f64_round (x < 0) M 0)"
    using isFinite_float64_of_int64[of i] by (simp only: A[symmetric] A_def)
  obtain m' :: nat and e' :: int where "(of_nat M :: rat) * 2 powi 0 = of_nat m' * 2 powi e'"
    "m' < 2 ^ 53" "- 1074 \<le> e'"
  proof (cases "M = 2 ^ 53")
    case True
    have "(of_nat (2 ^ 53) :: rat) * 2 powi 0 = of_nat (2 ^ 52) * 2 powi 1" by simp
    then have "(of_nat M :: rat) * 2 powi 0 = of_nat (2 ^ 52) * 2 powi 1"
      by (simp only: True)
    moreover have "(2::nat) ^ 52 < 2 ^ 53" by simp
    moreover have "- 1074 \<le> (1::int)" by simp
    ultimately show ?thesis by (rule that)
  next
    case False
    with M have "M < 2 ^ 53" by simp
    moreover have "- 1074 \<le> (0::int)" by simp
    ultimately show ?thesis using that[of M 0] by blast
  qed
  from f64_round_exact[OF fin this]
  have "\<bar>f64_val A\<bar> = of_nat M" by (simp add: A)
  moreover have "(of_nat M :: rat) = \<bar>of_int x\<bar>"
    by (simp add: M_def)
  ultimately have av: "\<bar>f64_val A\<bar> = \<bar>of_int x\<bar>"
    by (simp only:)
  have sg: "sign_bit A = (x < 0)" by (simp add: A sign_bit_f64_round)
  have "f64_val A = of_int x"
  proof (cases "x < 0")
    case True
    then have "f64_val A = - \<bar>f64_val A\<bar>"
      using f64_val_sign_abs[of A] sg by simp
    moreover from True have "(of_int x :: rat) < 0" by simp
    ultimately show ?thesis using av by linarith
  next
    case False
    then have "f64_val A = \<bar>f64_val A\<bar>"
      using f64_val_sign_abs[of A] sg by simp
    moreover from False have "0 \<le> (of_int x :: rat)" by simp
    ultimately show ?thesis using av by linarith
  qed
  then show ?thesis by (simp only: A_def x_def)
qed

lemma f64_mul_finite:
  assumes "isFinite a" "isFinite b"
  shows "f64_mul a b = f64_round (sign_bit a \<noteq> sign_bit b)
           (significand a * significand b) (exponent a + exponent b)"
  using assms by (simp add: f64_mul_def isNaN_def isInf_def isFinite_def)

lemma f64_mul_exact_product:
  "(of_nat (significand a * significand b) :: rat) * 2 powi (exponent a + exponent b)
     = \<bar>f64_val a\<bar> * \<bar>f64_val b\<bar>"
  by (simp add: abs_f64_val two_powi_add)


text \<open>
  So the product and the conversion of an int64 are the operations of IEEE 754: the sign
  is exact, and the magnitude is a float64 value nearest to the exact magnitude.
\<close>

lemma f64_mul_nearest:
  assumes "isFinite a" and "isFinite b" and "isFinite (f64_mul a b)"
  shows "\<bar>\<bar>f64_val (f64_mul a b)\<bar> - \<bar>f64_val a * f64_val b\<bar>\<bar>
      \<le> \<bar>\<bar>f64_val g\<bar> - \<bar>f64_val a * f64_val b\<bar>\<bar>"
    and "sign_bit (f64_mul a b) = (sign_bit a \<noteq> sign_bit b)"
proof -
  note P = f64_mul_finite[OF assms(1,2)]
  have x: "(of_nat (significand a * significand b) :: rat) * 2 powi (exponent a + exponent b)
      = \<bar>f64_val a * f64_val b\<bar>"
    by (simp only: f64_mul_exact_product abs_mult)
  from assms(3) have "isFinite (f64_round (sign_bit a \<noteq> sign_bit b)
      (significand a * significand b) (exponent a + exponent b))"
    by (simp only: P)
  from f64_round_nearest[OF this, of g]
  show "\<bar>\<bar>f64_val (f64_mul a b)\<bar> - \<bar>f64_val a * f64_val b\<bar>\<bar>
      \<le> \<bar>\<bar>f64_val g\<bar> - \<bar>f64_val a * f64_val b\<bar>\<bar>"
    by (simp only: P x)
  show "sign_bit (f64_mul a b) = (sign_bit a \<noteq> sign_bit b)"
    by (simp only: P sign_bit_f64_round)
qed

lemma float64_of_int64_nearest:
  "\<bar>\<bar>f64_val (float64_of_int64 i)\<bar> - \<bar>rat_of_int (sint i)\<bar>\<bar>
      \<le> \<bar>\<bar>f64_val g\<bar> - \<bar>rat_of_int (sint i)\<bar>\<bar>"
proof -
  define x where "x = sint i"
  have "isFinite (f64_round (x < 0) (nat \<bar>x\<bar>) 0)"
    using isFinite_float64_of_int64[of i] by (simp only: float64_of_int64_def x_def)
  from f64_round_nearest[OF this, of g]
  have "\<bar>\<bar>f64_val (f64_round (x < 0) (nat \<bar>x\<bar>) 0)\<bar> - \<bar>rat_of_int x\<bar>\<bar>
      \<le> \<bar>\<bar>f64_val g\<bar> - \<bar>rat_of_int x\<bar>\<bar>"
    by simp
  then show ?thesis by (simp only: float64_of_int64_def x_def)
qed

text \<open>
  Ties go to the even significand, so the result of rounding is \<open>nearest_even\<close> to the
  exact value; and \<open>nearest_even\<close> leaves no choice of the value.
\<close>

lemma rne_shift_half_even:
  assumes "2 * \<bar>int (rne_shift M k) * 2 ^ k - int M\<bar> = 2 ^ k"
  shows "even (rne_shift M k)"
proof -
  define q where "q = M div 2 ^ k"
  define r where "r = M mod 2 ^ k"
  define P where "P = (2::int) ^ k"
  have "M = q * 2 ^ k + r" unfolding q_def r_def by (rule div_mult_mod_eq[symmetric])
  then have "int M = int (q * 2 ^ k + r)" by (simp only:)
  then have M: "int M = int q * P + int r" by (simp add: P_def)
  have "r < 2 ^ k" by (simp add: r_def)
  then have "int r < int (2 ^ k)" by (simp only: of_nat_less_iff)
  then have r: "int r < P" by (simp add: P_def)
  have r0: "0 \<le> int r" by simp
  have a: "2 * \<bar>int (rne_shift M k) * P - int M\<bar> = P" using assms by (simp only: P_def)
  have "rne_shift M k = q \<or> rne_shift M k = q + 1"
    using rne_shift_bounds[of M k] by (auto simp: q_def)
  then have "2 * int r = P"
  proof
    assume "rne_shift M k = q"
    with a M r0 show ?thesis by simp
  next
    assume "rne_shift M k = q + 1"
    then have "int (rne_shift M k) * P - int M = P - int r"
      using M by (simp add: algebra_simps)
    with a r show ?thesis by (simp add: abs_if split: if_splits)
  qed
  then have "int (2 * r) = int (2 ^ k)" by (simp add: P_def)
  then have "2 * r = 2 ^ k" by (simp only: of_nat_eq_iff)
  then show ?thesis unfolding r_def by (rule rne_shift_tie_even)
qed

lemma even_significand_f64_pack:
  assumes m: "m \<le> 2 ^ 53" and e: "- 1074 \<le> e" and fin: "isFinite (f64_pack s m e)"
    and ev: "even m"
  shows "even (significand (f64_pack s m e))"
proof -
  consider "m < 2 ^ 52" | "2 ^ 52 \<le> m" "m < 2 ^ 53" | "m = 2 ^ 53"
    using m by linarith
  then show ?thesis
  proof cases
    case 1
    then show ?thesis using f64_pack_subnormal(3)[of m s e] ev by simp
  next
    case 2
    with fin have "e \<le> 971" using f64_pack_overflow[of s m e] by simp
    with 2 e show ?thesis using f64_pack_normal(3)[of m e s] ev by simp
  next
    case 3
    with fin have "e \<le> 970" using f64_pack_overflow[of s m e] by simp
    with e 3 show ?thesis using f64_pack_carry(3)[of e s] by simp
  qed
qed

lemma f64_round_tie_even:
  assumes fin: "isFinite (f64_round s M E)"
    and ne: "\<bar>f64_val g\<bar> \<noteq> \<bar>f64_val (f64_round s M E)\<bar>"
    and eq: "\<bar>\<bar>f64_val g\<bar> - of_nat M * 2 powi E\<bar>
        = \<bar>\<bar>f64_val (f64_round s M E)\<bar> - of_nat M * 2 powi E\<bar>"
  shows "even (significand (f64_round s M E))"
proof (cases "M = 0")
  case True
  with eq ne show ?thesis by (simp add: f64_round_zero)
next
  case False
  then have M: "0 < M" by simp
  define k where "k = max (bitlen (int M) - 53) (- 1074 - E)"
  show ?thesis
  proof (cases "k \<le> 0")
    case True
    have "\<bar>f64_val (f64_round s M E)\<bar> = of_nat M * 2 powi E"
      by (rule f64_round_abs_val_exact[OF M k_def True fin])
    with eq have "\<bar>f64_val g\<bar> = \<bar>f64_val (f64_round s M E)\<bar>" by simp
    with ne show ?thesis by simp
  next
    case False
    then have k0: "0 < k" by simp
    note br = f64_round_inexact_branch[OF M k_def k0]
    note rb = rne_shift_bounds[of M "nat k"]
    define G where "G = (2::rat) powi (E + k)"
    define X where "X = rat_of_nat M * 2 powi E"
    define R where "R = \<bar>f64_val (f64_round s M E)\<bar>"
    define V where "V = \<bar>f64_val g\<bar>"
    define q' where "q' = rne_shift M (nat k)"
    have G: "0 < G" by (simp add: G_def)
    have half: "2 * \<bar>R - X\<bar> \<le> G"
      unfolding R_def X_def G_def by (rule f64_round_half_grid[OF M k_def k0 fin])
    have Rq: "R = of_nat q' * G"
      unfolding R_def G_def q'_def by (rule f64_round_abs_val_inexact[OF M k_def k0 fin])
    have Vg: "V = of_nat (significand g) * 2 powi exponent g"
      unfolding V_def by (rule abs_f64_val)
    have VR: "V \<noteq> R" unfolding V_def R_def by (rule ne)
    have eqd: "\<bar>V - X\<bar> = \<bar>R - X\<bar>" using eq by (simp only: V_def R_def X_def)
    have tie: "2 * \<bar>R - X\<bar> = G"
    proof (cases "E + k \<le> exponent g")
      case True
      define w where "w = significand g * 2 ^ nat (exponent g - (E + k))"
      have "(2::rat) powi exponent g = 2 powi (exponent g - (E + k) + (E + k))" by simp
      also have "\<dots> = 2 powi (exponent g - (E + k)) * 2 powi (E + k)" by (rule two_powi_add)
      also have "(2::rat) powi (exponent g - (E + k)) = 2 ^ nat (exponent g - (E + k))"
        using True by (intro power_int_nonneg_exp) simp
      finally have Vw: "V = of_nat w * G" by (simp add: Vg w_def G_def)
      have "w \<noteq> q'" using VR G by (auto simp: Vw Rq)
      then have "1 \<le> \<bar>int w - int q'\<bar>" by simp
      then have "rat_of_int 1 \<le> rat_of_int \<bar>int w - int q'\<bar>" by (simp only: of_int_le_iff)
      then have "1 \<le> \<bar>rat_of_nat w - rat_of_nat q'\<bar>" by simp
      then have "1 * G \<le> \<bar>rat_of_nat w - rat_of_nat q'\<bar> * G"
        using G by (intro mult_right_mono) simp_all
      also have "\<dots> = \<bar>(rat_of_nat w - rat_of_nat q') * G\<bar>"
        using G by (simp add: abs_mult)
      also have "\<dots> = \<bar>V - R\<bar>" by (simp add: Vw Rq algebra_simps)
      finally have "G \<le> \<bar>V - R\<bar>" by simp
      with half eqd show ?thesis by (simp add: abs_if split: if_splits)
    next
      case False
      then have "E + k \<noteq> - 1074" using exponent_ge[of g] by simp
      with br(4) have "2 ^ 52 \<le> M div 2 ^ nat k" by (auto simp: not_less[symmetric])
      then have "(of_nat (2 ^ 52) :: rat) \<le> of_nat (M div 2 ^ nat k)"
        by (simp only: of_nat_le_iff)
      then have "(of_nat (2 ^ 52) :: rat) * G \<le> of_nat (M div 2 ^ nat k) * G"
        using G by (intro mult_right_mono) simp_all
      also have "\<dots> \<le> X" using br(5) by (simp only: G_def X_def)
      finally have big: "2 ^ 52 * G \<le> X" by simp
      from False have "exponent g \<le> E + k + (- 1)" by simp
      then have "(2::rat) powi exponent g \<le> 2 powi (E + k + (- 1))"
        by (simp only: two_powi_le_iff)
      also have "\<dots> = G * 2 powi (- 1)" unfolding G_def by (rule two_powi_add)
      finally have e: "(2::rat) powi exponent g \<le> G / 2" by (simp add: power_int_minus)
      have "significand g \<le> 2 ^ 53 - 1" using significand_less[of g] by simp
      then have "(of_nat (significand g) :: rat) \<le> of_nat (2 ^ 53 - 1)"
        by (simp only: of_nat_le_iff)
      then have "V \<le> of_nat (2 ^ 53 - 1) * 2 powi exponent g"
        unfolding Vg by (intro mult_right_mono) simp_all
      also have "\<dots> \<le> of_nat (2 ^ 53 - 1) * (G / 2)"
        using e by (intro mult_left_mono) simp_all
      also have "\<dots> = 2 ^ 52 * G - G / 2" by (simp add: algebra_simps)
      finally have "V \<le> 2 ^ 52 * G - G / 2" .
      with big half eqd G show ?thesis by (simp add: abs_if split: if_splits)
    qed
    have kn: "(2::rat) powi k = 2 ^ nat k"
      using k0 by (intro power_int_nonneg_exp) simp
    have gE: "G = 2 ^ nat k * 2 powi E"
      unfolding G_def by (simp only: two_powi_add kn mult.commute)
    define T where "T = (2::rat) powi E"
    have T: "0 < T" by (simp add: T_def)
    have "R - X = (rat_of_nat q' * 2 ^ nat k - rat_of_nat M) * T"
      by (simp add: Rq gE X_def T_def algebra_simps)
    then have "\<bar>R - X\<bar> = \<bar>rat_of_nat q' * 2 ^ nat k - rat_of_nat M\<bar> * T"
      using T by (simp add: abs_mult)
    with tie have "(2 * \<bar>rat_of_nat q' * 2 ^ nat k - rat_of_nat M\<bar>) * T = 2 ^ nat k * T"
      by (simp add: gE T_def)
    then have "2 * \<bar>rat_of_nat q' * 2 ^ nat k - rat_of_nat M\<bar> = 2 ^ nat k"
      using T by (simp only: mult_cancel_right) simp
    then have "rat_of_int (2 * \<bar>int q' * 2 ^ nat k - int M\<bar>) = rat_of_int (2 ^ nat k)"
      by simp
    then have "2 * \<bar>int q' * 2 ^ nat k - int M\<bar> = 2 ^ nat k"
      by (simp only: of_int_eq_iff)
    then have ev: "even q'" unfolding q'_def by (rule rne_shift_half_even)
    have "q' \<le> 2 ^ 53" using br(2) rb(2) by (simp add: q'_def)
    moreover have "isFinite (f64_pack s q' (E + k))" using fin by (simp only: br(1) q'_def)
    ultimately have "even (significand (f64_pack s q' (E + k)))"
      using br(3) ev by (intro even_significand_f64_pack)
    then show ?thesis by (simp only: br(1) q'_def)
  qed
qed

lemma f64_round_nearest_even:
  assumes fin: "isFinite (f64_round s M E)"
  shows "nearest_even ((if s then - 1 else 1) * (of_nat M * 2 powi E)) (f64_round s M E)"
proof -
  define P where "P = f64_round s M E"
  define X where "X = rat_of_nat M * 2 powi E"
  define R where "R = \<bar>f64_val P\<bar>"
  define x where "x = (if s then - 1 else 1) * X"
  have X0: "0 \<le> X" by (simp add: X_def)
  have R0: "0 \<le> R" by (simp add: R_def)
  have vP: "f64_val P = (if s then - R else R)"
    using f64_val_sign_abs[of P] by (simp add: P_def sign_bit_f64_round R_def)
  have dP: "\<bar>f64_val P - x\<bar> = \<bar>R - X\<bar>"
    by (simp add: vP x_def abs_if)
  have near: "\<bar>R - X\<bar> \<le> \<bar>\<bar>f64_val g\<bar> - X\<bar>" for g
    unfolding R_def X_def P_def by (rule f64_round_nearest[OF fin])
  have dg: "\<bar>\<bar>f64_val g\<bar> - X\<bar> \<le> \<bar>f64_val g - x\<bar>" for g
    using X0 by (simp add: x_def abs_if)
  have n1: "\<bar>f64_val P - x\<bar> \<le> \<bar>f64_val g - x\<bar>" for g
    using near[of g] dg[of g] dP by linarith
  have n2: "even (significand P)"
    if ne: "f64_val g \<noteq> f64_val P" and eq: "\<bar>f64_val g - x\<bar> = \<bar>f64_val P - x\<bar>" for g
  proof (cases "\<bar>f64_val g\<bar> = R")
    case False
    from near[of g] dg[of g] eq dP have "\<bar>\<bar>f64_val g\<bar> - X\<bar> = \<bar>R - X\<bar>" by linarith
    then have "\<bar>\<bar>f64_val g\<bar> - of_nat M * 2 powi E\<bar>
        = \<bar>\<bar>f64_val (f64_round s M E)\<bar> - of_nat M * 2 powi E\<bar>"
      by (simp only: R_def X_def P_def)
    moreover from False have "\<bar>f64_val g\<bar> \<noteq> \<bar>f64_val (f64_round s M E)\<bar>"
      by (simp add: R_def P_def)
    ultimately have "even (significand (f64_round s M E))"
      using fin by (intro f64_round_tie_even[of s M E g])
    then show ?thesis by (simp only: P_def)
  next
    case True
    with ne vP have opp: "f64_val g = - f64_val P" and Rp: "0 < R"
      by (auto simp: abs_if split: if_splits)
    from opp eq dP vP have "\<bar>R + X\<bar> = \<bar>R - X\<bar>"
      by (simp add: x_def abs_if split: if_splits)
    with Rp X0 have "X = 0" by (simp add: abs_if split: if_splits)
    then have "M = 0" by (simp add: X_def)
    then have "R = 0" by (simp add: R_def P_def f64_round_zero)
    with Rp show ?thesis by simp
  qed
  show ?thesis
    unfolding nearest_even_def using fin n1 n2
    by (auto simp: P_def x_def X_def)
qed

lemma float64_of_int64_nearest_even:
  "nearest_even (rat_of_int (sint i)) (float64_of_int64 i)"
proof -
  define x where "x = sint i"
  have fin: "isFinite (f64_round (x < 0) (nat \<bar>x\<bar>) 0)"
    using isFinite_float64_of_int64[of i] by (simp only: float64_of_int64_def x_def)
  have "(if x < 0 then - 1 else 1) * (rat_of_nat (nat \<bar>x\<bar>) * 2 powi 0) = rat_of_int x"
    by simp
  with f64_round_nearest_even[OF fin]
  have "nearest_even (rat_of_int x) (f64_round (x < 0) (nat \<bar>x\<bar>) 0)" by (simp only:)
  then show ?thesis by (simp only: float64_of_int64_def x_def)
qed

lemma f64_mul_nearest_even:
  assumes fa: "isFinite a" and fb: "isFinite b" and fin: "isFinite (f64_mul a b)"
  shows "nearest_even (f64_val a * f64_val b) (f64_mul a b)"
proof -
  define M where "M = significand a * significand b"
  define E where "E = exponent a + exponent b"
  define s where "s = (sign_bit a \<noteq> sign_bit b)"
  have P: "f64_mul a b = f64_round s M E"
    using f64_mul_finite[OF fa fb] by (simp add: M_def E_def s_def)
  have x: "(of_nat M :: rat) * 2 powi E = \<bar>f64_val a\<bar> * \<bar>f64_val b\<bar>"
    unfolding M_def E_def by (rule f64_mul_exact_product)
  have "(if s then - 1 else 1) * (\<bar>f64_val a\<bar> * \<bar>f64_val b\<bar>) = f64_val a * f64_val b"
    using f64_val_sign_abs[of a] f64_val_sign_abs[of b]
    by (cases "sign_bit a"; cases "sign_bit b") (simp_all add: s_def)
  moreover from fin have "isFinite (f64_round s M E)" by (simp only: P)
  then have "nearest_even ((if s then - 1 else 1) * (of_nat M * 2 powi E)) (f64_round s M E)"
    by (rule f64_round_nearest_even)
  ultimately show ?thesis by (simp only: P x)
qed

lemma exponent_le: "isFinite f \<Longrightarrow> exponent f \<le> 971"
proof -
  assume fin: "isFinite f"
  have "uint (exp_bits f) < 2 ^ 11" using uint_bounded[of "exp_bits f"] by simp
  moreover have "uint (exp_bits f) \<noteq> 2047"
  proof
    assume "uint (exp_bits f) = 2047"
    then have "uint (exp_bits f) = uint (2047 :: 11 word)" by simp
    then have "exp_bits f = 2047" by (simp only: word_uint_eq_iff)
    with fin show False by (simp add: isFinite_def)
  qed
  ultimately have "uint (exp_bits f) \<le> 2046" by simp
  then show ?thesis by (simp add: exponent_def)
qed

lemma significand_normal: "exponent f \<noteq> - 1074 \<Longrightarrow> 2 ^ 52 \<le> significand f"
  by (auto simp: exponent_def significand_def split: if_splits)

lemma significand_subnormal: "exp_bits f = 0 \<Longrightarrow> significand f < 2 ^ 52"
  using unsigned_less[of "frac_bits f"] by (simp add: significand_def)

lemma f64_zero: "isFinite \<lparr>sign_bit = False, exp_bits = 0, frac_bits = 0\<rparr>"
  "f64_val \<lparr>sign_bit = False, exp_bits = 0, frac_bits = 0\<rparr> = 0"
  by (simp_all add: isFinite_def f64_val_def significand_def)

lemma next_significand:
  assumes fin: "isFinite f" and ev: "even (significand f)"
  shows "\<exists>h. isFinite h \<and> sign_bit h = s \<and> significand h = significand f + 1
           \<and> exponent h = exponent f"
proof (cases "exp_bits f = 0")
  case True
  then have "significand f < 2 ^ 52" by (rule significand_subnormal)
  moreover have "significand f + 1 \<noteq> 2 ^ 52" using ev by (metis even_plus_one_iff even_numeral even_power zero_less_numeral)
  ultimately have lt: "significand f + 1 < 2 ^ 52" by simp
  from True have "exponent f = - 1074" by (simp add: exponent_def)
  with f64_pack_subnormal[OF lt, of s "- 1074"] show ?thesis by metis
next
  case False
  then have lo: "2 ^ 52 \<le> significand f + 1" by (simp add: significand_def)
  have "significand f + 1 \<noteq> 2 ^ 53" using ev by (metis even_plus_one_iff even_numeral even_power zero_less_numeral)
  with significand_less[of f] have hi: "significand f + 1 < 2 ^ 53" by simp
  from f64_pack_normal[OF lo hi exponent_ge[of f] exponent_le[OF fin], of s]
  show ?thesis by metis
qed

lemma nearest_even_no_two:
  assumes f: "nearest_even x f" and g: "nearest_even x g"
    and lt: "\<bar>f64_val f\<bar> < \<bar>f64_val g\<bar>" and sg: "0 \<le> f64_val f * f64_val g"
  shows False
proof -
  from f g have ff: "isFinite f" and fg: "isFinite g" by (simp_all add: nearest_even_def)
  from lt have ne: "f64_val f \<noteq> f64_val g" by auto
  from f fg have "\<bar>f64_val f - x\<bar> \<le> \<bar>f64_val g - x\<bar>" by (simp add: nearest_even_def)
  moreover from g ff have "\<bar>f64_val g - x\<bar> \<le> \<bar>f64_val f - x\<bar>" by (simp add: nearest_even_def)
  ultimately have eq: "\<bar>f64_val f - x\<bar> = \<bar>f64_val g - x\<bar>" by simp
  from f fg ne eq have evf: "even (significand f)"
    unfolding nearest_even_def by (metis)
  from g ff ne eq have evg: "even (significand g)"
    unfolding nearest_even_def by (metis)
  obtain h where h: "isFinite h" "sign_bit h = sign_bit g"
    "significand h = significand f + 1" "exponent h = exponent f"
    using next_significand[OF ff evf, of "sign_bit g"] by blast
  define a where "a = \<bar>f64_val f\<bar>"
  define b where "b = \<bar>f64_val g\<bar>"
  define c where "c = \<bar>f64_val h\<bar>"
  define T where "T = (2::rat) powi exponent f"
  have T: "0 < T" by (simp add: T_def)
  have a: "a = of_nat (significand f) * T" by (simp add: a_def abs_f64_val T_def)
  have c: "c = of_nat (significand f + 1) * T" by (simp add: c_def abs_f64_val h T_def)
  have ac: "a < c" using T by (simp add: a c)
  have cb: "c < b"
  proof (cases "exponent f \<le> exponent g")
    case True
    define N where "N = significand g * 2 ^ nat (exponent g - exponent f)"
    have "(2::rat) powi exponent g = 2 powi (exponent g - exponent f + exponent f)" by simp
    also have "\<dots> = 2 powi (exponent g - exponent f) * 2 powi exponent f" by (rule two_powi_add)
    also have "(2::rat) powi (exponent g - exponent f) = 2 ^ nat (exponent g - exponent f)"
      using True by (intro power_int_nonneg_exp) simp
    finally have b: "b = of_nat N * T" by (simp add: b_def abs_f64_val N_def T_def)
    from lt have "rat_of_nat (significand f) * T < of_nat N * T"
      by (simp only: a[symmetric] b[symmetric] a_def b_def)
    then have "rat_of_nat (significand f) < of_nat N"
      using T by (simp only: mult_less_cancel_right_pos)
    then have "significand f < N" by (simp only: of_nat_less_iff)
    moreover have "even N" using evg by (simp add: N_def)
    ultimately have "significand f + 1 < N" using evf by (metis Suc_eq_plus1 Suc_lessI even_Suc)
    then have "rat_of_nat (significand f + 1) < of_nat N" by (simp only: of_nat_less_iff)
    then have "rat_of_nat (significand f + 1) * T < of_nat N * T"
      using T by (simp only: mult_less_cancel_right_pos)
    then show ?thesis by (simp only: c b)
  next
    case False
    then have "exponent f \<noteq> - 1074" using exponent_ge[of g] by simp
    then have "2 ^ 52 \<le> significand f" by (rule significand_normal)
    then have "rat_of_nat (2 ^ 52) \<le> of_nat (significand f)" by (simp only: of_nat_le_iff)
    then have "rat_of_nat (2 ^ 52) * T \<le> of_nat (significand f) * T"
      using T by (intro mult_right_mono) simp_all
    then have lo: "2 ^ 52 * T \<le> a" by (simp add: a)
    from False have "exponent g + 1 \<le> exponent f" by simp
    then have "(2::rat) powi (exponent g + 1) \<le> T"
      unfolding T_def by (simp only: two_powi_le_iff)
    then have "2 powi exponent g * 2 \<le> T" by (simp add: two_powi_add)
    then have e: "2 ^ 53 * 2 powi exponent g \<le> 2 ^ 52 * T" by simp
    have "rat_of_nat (significand g) < of_nat (2 ^ 53)"
      using significand_less[of g] by (simp only: of_nat_less_iff)
    then have "rat_of_nat (significand g) * 2 powi exponent g < of_nat (2 ^ 53) * 2 powi exponent g"
      by (intro mult_strict_right_mono) simp_all
    then have "b < 2 ^ 53 * 2 powi exponent g" by (simp add: b_def abs_f64_val)
    with e lo have "b < a" by linarith
    with lt show ?thesis by (simp add: a_def b_def)
  qed
  define sgn where "sgn = (if sign_bit g then - 1 else 1 :: rat)"
  have vg: "f64_val g = sgn * b"
    by (cases "sign_bit g") (simp_all add: sgn_def b_def f64_val_def abs_mult)
  have vh: "f64_val h = sgn * c"
    using h(2) by (cases "sign_bit g") (simp_all add: sgn_def c_def f64_val_def abs_mult)
  have b0: "0 < b" using lt by (simp add: b_def)
  have "0 \<le> f64_val f * sgn"
  proof -
    from sg have "0 \<le> (f64_val f * sgn) * b" by (simp add: vg mult.assoc)
    then show ?thesis using b0 by (simp add: zero_le_mult_iff)
  qed
  then have vf: "f64_val f = sgn * a"
    by (auto simp: sgn_def a_def abs_if split: if_splits)
  from f h(1) have "\<bar>f64_val f - x\<bar> \<le> \<bar>f64_val h - x\<bar>" by (simp add: nearest_even_def)
  with eq ac cb show False
    by (simp add: vf vg vh sgn_def abs_if split: if_splits)
qed

lemma nearest_even_unique:
  assumes f: "nearest_even x f" and g: "nearest_even x g"
  shows "f64_val f = f64_val g"
proof (rule ccontr)
  assume ne: "f64_val f \<noteq> f64_val g"
  from f g have ff: "isFinite f" and fg: "isFinite g" by (simp_all add: nearest_even_def)
  from f fg have "\<bar>f64_val f - x\<bar> \<le> \<bar>f64_val g - x\<bar>" by (simp add: nearest_even_def)
  moreover from g ff have "\<bar>f64_val g - x\<bar> \<le> \<bar>f64_val f - x\<bar>" by (simp add: nearest_even_def)
  ultimately have eq: "\<bar>f64_val f - x\<bar> = \<bar>f64_val g - x\<bar>" by simp
  show False
  proof (cases "0 \<le> f64_val f * f64_val g")
    case True
    then have "\<bar>f64_val f\<bar> \<noteq> \<bar>f64_val g\<bar>"
      using ne by (auto simp: abs_if zero_le_mult_iff split: if_splits)
    then consider "\<bar>f64_val f\<bar> < \<bar>f64_val g\<bar>" | "\<bar>f64_val g\<bar> < \<bar>f64_val f\<bar>" by linarith
    then show False
    proof cases
      case 1
      from f g 1 True show False by (rule nearest_even_no_two)
    next
      case 2
      from True have "0 \<le> f64_val g * f64_val f" by (simp only: mult.commute)
      with g f 2 show False by (rule nearest_even_no_two)
    qed
  next
    case False
    from f f64_zero(1) have "\<bar>f64_val f - x\<bar> \<le> \<bar>0 - x\<bar>"
      unfolding nearest_even_def using f64_zero(2) by metis
    with eq False show False
      by (simp add: abs_if mult_less_0_iff not_le split: if_splits)
  qed
qed

text \<open>
  Rounding overflows to the infinity of the sign, and does so from the midpoint between
  the greatest float64 and \<open>2 ^ 1024\<close> on.
\<close>

lemma f64_pack_finite_or_inf:
  assumes m: "m \<le> 2 ^ 53" and e: "- 1074 \<le> e"
  shows "isFinite (f64_pack s m e) \<or> f64_pack s m e = f64_Inf s"
proof -
  consider "m < 2 ^ 52" | "2 ^ 52 \<le> m" "m < 2 ^ 53" | "m = 2 ^ 53"
    using m by linarith
  then show ?thesis
  proof cases
    case 1
    then show ?thesis using f64_pack_subnormal(1)[of m s e] by simp
  next
    case 2
    show ?thesis
    proof (cases "e \<le> 971")
      case True
      with 2 e show ?thesis using f64_pack_normal(1)[of m e s] by simp
    next
      case False
      with 2 show ?thesis by (simp add: f64_pack_def)
    qed
  next
    case 3
    show ?thesis
    proof (cases "e \<le> 970")
      case True
      with 3 e show ?thesis using f64_pack_carry(1)[of e s] by simp
    next
      case False
      with 3 show ?thesis by (simp add: f64_pack_def)
    qed
  qed
qed

lemma f64_round_finite_or_inf: "isFinite (f64_round s M E) \<or> f64_round s M E = f64_Inf s"
proof (cases "M = 0")
  case True
  then show ?thesis by (simp add: f64_round_zero)
next
  case False
  then have M: "0 < M" by simp
  define k where "k = max (bitlen (int M) - 53) (- 1074 - E)"
  show ?thesis
  proof (cases "k \<le> 0")
    case True
    note br = f64_round_exact_branch[OF M k_def True]
    from br(2) have "M * 2 ^ nat (- k) \<le> 2 ^ 53" by simp
    from f64_pack_finite_or_inf[OF this br(3), of s] show ?thesis by (simp only: br(1))
  next
    case False
    then have k0: "0 < k" by simp
    note br = f64_round_inexact_branch[OF M k_def k0]
    note rb = rne_shift_bounds[of M "nat k"]
    have "rne_shift M (nat k) \<le> 2 ^ 53" using br(2) rb(2) by simp
    from f64_pack_finite_or_inf[OF this br(3), of s] show ?thesis by (simp only: br(1))
  qed
qed

lemma rne_shift_up: "rne_shift M k = M div 2 ^ k + 1 \<Longrightarrow> 2 ^ k \<le> 2 * (M mod 2 ^ k)"
  by (simp add: rne_shift_def Let_def split: if_splits)

lemma f64_val_le_max:
  assumes "isFinite f"
  shows "\<bar>f64_val f\<bar> \<le> (2 ^ 53 - 1) * 2 powi 971"
proof -
  have "significand f \<le> 2 ^ 53 - 1" using significand_less[of f] by simp
  then have "rat_of_nat (significand f) \<le> of_nat (2 ^ 53 - 1)" by (simp only: of_nat_le_iff)
  then have s: "rat_of_nat (significand f) \<le> 2 ^ 53 - 1" by simp
  have "exponent f \<le> 971" using assms by (rule exponent_le)
  then have e: "(2::rat) powi exponent f \<le> 2 powi 971" by (simp only: two_powi_le_iff)
  have "rat_of_nat (significand f) * 2 powi exponent f \<le> (2 ^ 53 - 1) * 2 powi 971"
    using s e by (intro mult_mono) simp_all
  then show ?thesis by (simp only: abs_f64_val)
qed

lemma significand_of_max:
  assumes fin: "isFinite f" and v: "\<bar>f64_val f\<bar> = (2 ^ 53 - 1) * 2 powi 971"
  shows "significand f = 2 ^ 53 - 1"
proof -
  have sl: "significand f \<le> 2 ^ 53 - 1" using significand_less[of f] by simp
  then have "rat_of_nat (significand f) \<le> of_nat (2 ^ 53 - 1)" by (simp only: of_nat_le_iff)
  then have s: "rat_of_nat (significand f) \<le> 2 ^ 53 - 1" by simp
  have el: "exponent f \<le> 971" using fin by (rule exponent_le)
  have "exponent f = 971"
  proof (rule ccontr)
    assume "exponent f \<noteq> 971"
    with el have "exponent f < 971" by simp
    then have "(2::rat) powi exponent f < 2 powi 971" by (simp only: two_powi_less_iff)
    then have "(2 ^ 53 - 1) * 2 powi exponent f < (2 ^ 53 - 1) * (2::rat) powi 971"
      by (intro mult_strict_left_mono) simp_all
    moreover have "rat_of_nat (significand f) * 2 powi exponent f
        \<le> (2 ^ 53 - 1) * 2 powi exponent f"
      using s by (intro mult_right_mono) simp_all
    ultimately show False using v by (simp only: abs_f64_val)
  qed
  with v have "rat_of_nat (significand f) * 2 powi 971 = (2 ^ 53 - 1) * 2 powi 971"
    by (simp only: abs_f64_val)
  then have "rat_of_nat (significand f) = 2 ^ 53 - 1"
    using two_powi_pos[of 971] by (simp only: mult_cancel_right) simp
  also have "(2 ^ 53 - 1 :: rat) = of_nat (2 ^ 53 - 1)" by simp
  finally show ?thesis by (simp only: of_nat_eq_iff)
qed

lemma f64_round_finite_if:
  assumes lt: "of_nat M * 2 powi E < (2 ^ 54 - 1) * (2::rat) powi 970"
  shows "isFinite (f64_round s M E)"
proof (cases "M = 0")
  case True
  then show ?thesis by (simp add: f64_round_zero)
next
  case False
  then have M: "0 < M" by simp
  define k where "k = max (bitlen (int M) - 53) (- 1074 - E)"
  define X where "X = rat_of_nat M * 2 powi E"
  have "(2 ^ 54 - 1) * (2::rat) powi 970 < 2 ^ 54 * 2 powi 970"
    by (intro mult_strict_right_mono) simp_all
  also have "\<dots> = 2 powi 54 * 2 powi 970" by simp
  also have "\<dots> = 2 powi 1024" by (simp only: two_powi_add[symmetric]) simp
  finally have X1024: "X < 2 powi 1024" using lt by (simp add: X_def)
  have bound: "g \<le> 971" if "(2 ^ 52 :: rat) * 2 powi g \<le> X" for g
  proof -
    have "(2::rat) powi (52 + g) = 2 powi 52 * 2 powi g" by (rule two_powi_add)
    also have "\<dots> = 2 ^ 52 * 2 powi g" by simp
    also note that
    also note X1024
    finally have "52 + g < 1024" by (simp only: two_powi_less_iff)
    then show ?thesis by simp
  qed
  show ?thesis
  proof (cases "k \<le> 0")
    case True
    note br = f64_round_exact_branch[OF M k_def True]
    define m where "m = M * 2 ^ nat (- k)"
    have val: "rat_of_nat m * 2 powi (E + k) = X" using br(5) by (simp only: m_def X_def)
    show ?thesis
    proof (cases "m < 2 ^ 52")
      case True
      then show ?thesis unfolding br(1) m_def[symmetric] by (rule f64_pack_subnormal(1))
    next
      case False
      then have lo: "2 ^ 52 \<le> m" by simp
      then have "rat_of_nat (2 ^ 52) \<le> of_nat m" by (simp only: of_nat_le_iff)
      then have "rat_of_nat (2 ^ 52) * 2 powi (E + k) \<le> of_nat m * 2 powi (E + k)"
        by (intro mult_right_mono) simp_all
      then have "(2 ^ 52 :: rat) * 2 powi (E + k) \<le> X" by (simp add: val)
      then have "E + k \<le> 971" by (rule bound)
      with lo br(2,3) show ?thesis
        unfolding br(1) m_def[symmetric] by (intro f64_pack_normal(1)) (simp_all add: m_def)
    qed
  next
    case False
    then have k0: "0 < k" by simp
    note br = f64_round_inexact_branch[OF M k_def k0]
    note rb = rne_shift_bounds[of M "nat k"]
    define q where "q = M div 2 ^ nat k"
    define q' where "q' = rne_shift M (nat k)"
    define e where "e = E + k"
    have P: "f64_round s M E = f64_pack s q' e" by (simp only: br(1) q'_def e_def)
    have q53: "q < 2 ^ 53" using br(2) by (simp only: q_def)
    have e0: "- 1074 \<le> e" using br(3) by (simp only: e_def)
    have qX: "rat_of_nat q * 2 powi e \<le> X" using br(5) by (simp only: q_def e_def X_def)
    have qq: "q \<le> q'" "q' \<le> q + 1" using rb by (simp_all add: q_def q'_def)
    show ?thesis
    proof (cases "q' < 2 ^ 52")
      case True
      then show ?thesis unfolding P by (rule f64_pack_subnormal(1))
    next
      case False
      then have lo: "2 ^ 52 \<le> q'" by simp
      have e971: "e \<le> 971"
      proof (cases "q < 2 ^ 52")
        case True
        then have "e = - 1074" using br(4) by (simp add: q_def e_def)
        then show ?thesis by simp
      next
        case False
        then have "2 ^ 52 \<le> q" by simp
        then have "rat_of_nat (2 ^ 52) \<le> of_nat q" by (simp only: of_nat_le_iff)
        then have "rat_of_nat (2 ^ 52) * 2 powi e \<le> of_nat q * 2 powi e"
          by (intro mult_right_mono) simp_all
        from this qX have "rat_of_nat (2 ^ 52) * 2 powi e \<le> X" by (rule order_trans)
        then have "(2 ^ 52 :: rat) * 2 powi e \<le> X" by simp
        then show ?thesis by (rule bound)
      qed
      show ?thesis
      proof (cases "q' < 2 ^ 53")
        case True
        with lo e0 e971 show ?thesis unfolding P by (intro f64_pack_normal(1))
      next
        case False
        with qq q53 have q'53: "q' = 2 ^ 53" and qv: "q = 2 ^ 53 - 1" by simp_all
        then have "rne_shift M (nat k) = M div 2 ^ nat k + 1" by (simp add: q'_def q_def)
        then have up: "2 ^ nat k \<le> 2 * (M mod 2 ^ nat k)" by (rule rne_shift_up)
        have "M = q * 2 ^ nat k + M mod 2 ^ nat k"
          unfolding q_def by (rule div_mult_mod_eq[symmetric])
        then have "2 * M = 2 * q * 2 ^ nat k + 2 * (M mod 2 ^ nat k)" by simp
        with up have "(2 * q + 1) * 2 ^ nat k \<le> 2 * M" by (simp add: algebra_simps)
        then have "rat_of_nat ((2 * q + 1) * 2 ^ nat k) \<le> of_nat (2 * M)"
          by (simp only: of_nat_le_iff)
        moreover have "rat_of_nat (2 * q + 1) = 2 ^ 54 - 1" by (simp add: qv)
        ultimately have "(2 ^ 54 - 1) * 2 ^ nat k \<le> 2 * rat_of_nat M" by simp
        then have "(2 ^ 54 - 1) * 2 ^ nat k * 2 powi E \<le> 2 * rat_of_nat M * 2 powi E"
          by (intro mult_right_mono) simp_all
        moreover have "(2::rat) powi e = 2 ^ nat k * 2 powi E"
        proof -
          have "(2::rat) powi e = 2 powi k * 2 powi E"
            unfolding e_def by (simp only: two_powi_add mult.commute)
          moreover have "(2::rat) powi k = 2 ^ nat k"
            using k0 by (intro power_int_nonneg_exp) simp
          ultimately show ?thesis by simp
        qed
        ultimately have half: "(2 ^ 54 - 1) * 2 powi e \<le> 2 * X"
          by (simp add: X_def mult.assoc)
        have "e \<le> 970"
        proof (rule ccontr)
          assume "\<not> e \<le> 970"
          then have "971 \<le> e" by simp
          then have "(2::rat) powi 971 \<le> 2 powi e" by (simp only: two_powi_le_iff)
          then have "(2 ^ 54 - 1) * (2::rat) powi 971 \<le> (2 ^ 54 - 1) * 2 powi e"
            by (intro mult_left_mono) simp_all
          with half have "(2 ^ 54 - 1) * (2::rat) powi 971 \<le> 2 * X" by simp
          moreover have "(2::rat) powi 971 = 2 * 2 powi 970"
            using two_powi_add[of 1 970] by simp
          ultimately have "(2 ^ 54 - 1) * (2::rat) powi 970 \<le> X" by simp
          with lt show False by (simp add: X_def)
        qed
        with e0 show ?thesis unfolding P q'53 by (intro f64_pack_carry(1))
      qed
    qed
  qed
qed

lemma f64_round_finite_only_if:
  assumes fin: "isFinite (f64_round s M E)"
  shows "of_nat M * 2 powi E < (2 ^ 54 - 1) * (2::rat) powi 970"
proof (rule ccontr)
  assume "\<not> of_nat M * 2 powi E < (2 ^ 54 - 1) * (2::rat) powi 970"
  define X where "X = rat_of_nat M * 2 powi E"
  define T where "T = (2::rat) powi 970"
  define R where "R = \<bar>f64_val (f64_round s M E)\<bar>"
  let ?g = "\<lparr>sign_bit = False, exp_bits = 2047, frac_bits = 0\<rparr>"
  have T: "0 < T" by (simp add: T_def)
  have ge: "(2 ^ 54 - 1) * T \<le> X"
    using \<open>\<not> of_nat M * 2 powi E < (2 ^ 54 - 1) * (2::rat) powi 970\<close> by (simp add: X_def T_def)
  have p971: "(2::rat) powi 971 = 2 * T" unfolding T_def using two_powi_add[of 1 970] by simp
  have p972: "(2::rat) powi 972 = 4 * T" unfolding T_def using two_powi_add[of 2 970] by simp
  have "R \<le> (2 ^ 53 - 1) * 2 powi 971" unfolding R_def using fin by (rule f64_val_le_max)
  then have Rmax: "R \<le> (2 ^ 54 - 2) * T" unfolding p971 by simp
  have "significand ?g = 2 ^ 52" "exponent ?g = 972"
    by (simp_all add: significand_def exponent_def)
  then have "\<bar>f64_val ?g\<bar> = of_nat (2 ^ 52) * 2 powi 972"
    by (simp only: abs_f64_val)
  then have V: "\<bar>f64_val ?g\<bar> = 2 ^ 54 * T" unfolding p972 by simp
  have near: "\<bar>R - X\<bar> \<le> \<bar>2 ^ 54 * T - X\<bar>"
    using f64_round_nearest[OF fin, of ?g] by (simp only: V R_def X_def)
  have XT: "X = (2 ^ 54 - 1) * T" and RT: "R = (2 ^ 54 - 2) * T"
    using near ge Rmax T by (simp_all add: abs_if split: if_splits)
  have "\<bar>f64_val ?g\<bar> \<noteq> R" using T by (simp add: V RT)
  moreover have "\<bar>\<bar>f64_val ?g\<bar> - X\<bar> = \<bar>R - X\<bar>" by (simp add: V RT XT algebra_simps)
  ultimately have "even (significand (f64_round s M E))"
    unfolding R_def X_def by (intro f64_round_tie_even[OF fin, of ?g])
  moreover have "\<bar>f64_val (f64_round s M E)\<bar> = (2 ^ 53 - 1) * 2 powi 971"
    using RT unfolding p971 R_def by simp
  with fin have "significand (f64_round s M E) = 2 ^ 53 - 1" by (rule significand_of_max)
  ultimately show False by simp
qed

lemma f64_mul_finite_iff:
  assumes fa: "isFinite a" and fb: "isFinite b"
  shows "isFinite (f64_mul a b) \<longleftrightarrow> \<bar>f64_val a * f64_val b\<bar> < (2 ^ 54 - 1) * 2 powi 970"
proof -
  have x: "rat_of_nat (significand a * significand b) * 2 powi (exponent a + exponent b)
      = \<bar>f64_val a * f64_val b\<bar>"
    by (simp only: f64_mul_exact_product abs_mult)
  show ?thesis
    unfolding f64_mul_finite[OF fa fb]
    using f64_round_finite_if[of "significand a * significand b" "exponent a + exponent b"
        "sign_bit a \<noteq> sign_bit b"]
      f64_round_finite_only_if[of "sign_bit a \<noteq> sign_bit b" "significand a * significand b"
        "exponent a + exponent b"]
    by (auto simp only: x)
qed

lemma f64_mul_overflow:
  assumes fa: "isFinite a" and fb: "isFinite b" and inf: "\<not> isFinite (f64_mul a b)"
  shows "f64_mul a b = f64_Inf (sign_bit a \<noteq> sign_bit b)"
  using f64_round_finite_or_inf[of "sign_bit a \<noteq> sign_bit b" "significand a * significand b"
      "exponent a + exponent b"] inf
  by (simp add: f64_mul_finite[OF fa fb])

lemma sign_bit_f64_mul:
  "isFinite a \<Longrightarrow> isFinite b \<Longrightarrow> sign_bit (f64_mul a b) = (sign_bit a \<noteq> sign_bit b)"
  by (simp add: f64_mul_finite sign_bit_f64_round)

text \<open>The products with a NaN and with an infinity; the conversion of an int64 is zero for 0 only.\<close>

lemma isZero_iff: "isZero f \<longleftrightarrow> significand f = 0"
proof -
  have "unat (frac_bits f) = 0 \<longleftrightarrow> frac_bits f = 0" by (simp add: unat_eq_0)
  then show ?thesis by (auto simp: isZero_def significand_def)
qed

lemma isZero_float64_of_int64: "isZero (float64_of_int64 i) \<longleftrightarrow> i = 0"
proof
  assume z: "isZero (float64_of_int64 i)"
  show "i = 0"
  proof (rule ccontr)
    assume "i \<noteq> 0"
    then have "sint i \<noteq> 0" by (metis sint_0 signed_eq_0_iff)
    then have "1 \<le> nat \<bar>sint i\<bar>" by simp
    then have "rat_of_nat 1 \<le> of_nat (nat \<bar>sint i\<bar>)" by (simp only: of_nat_le_iff)
    then have le: "rat_of_nat 1 * 2 powi 0 \<le> of_nat (nat \<bar>sint i\<bar>) * 2 powi 0" by simp
    have fin: "isFinite (f64_round (sint i < 0) (nat \<bar>sint i\<bar>) 0)"
      using isFinite_float64_of_int64[of i] by (simp only: float64_of_int64_def)
    have "rat_of_nat 1 * 2 powi 0 \<le> \<bar>f64_val (f64_round (sint i < 0) (nat \<bar>sint i\<bar>) 0)\<bar>"
      using fin _ _ le by (rule f64_round_lower) simp_all
    then have "1 \<le> \<bar>f64_val (float64_of_int64 i)\<bar>" by (simp add: float64_of_int64_def)
    moreover from z have "f64_val (float64_of_int64 i) = 0"
      by (simp add: isZero_iff f64_val_def)
    ultimately show False by simp
  qed
next
  assume "i = 0"
  then show "isZero (float64_of_int64 i)" by (simp add: f64_eval)
qed

lemma f64_mul_NaN: "isNaN a \<or> isNaN b \<Longrightarrow> isNaN (f64_mul a b)"
  by (auto simp: f64_mul_def isNaN_def f64_NaN_def)

lemma f64_mul_Inf:
  assumes "\<not> isNaN a" and "isInf b"
  shows "f64_mul a b =
    (if isZero a then f64_NaN else f64_Inf (sign_bit a \<noteq> sign_bit b))"
  using assms by (auto simp: f64_mul_def isNaN_def isInf_def isZero_def)

lemma not_isNaN_finite: "isFinite f \<Longrightarrow> \<not> isNaN f"
  by (simp add: isFinite_def isNaN_def)

lemma f64_mul_exact:
  assumes fa: "isFinite a" and fb: "isFinite b"
    and rep: "\<bar>f64_val a * f64_val b\<bar> = of_nat m' * 2 powi e'" "m' < 2 ^ 53" "- 1074 \<le> e'"
    and small: "\<bar>f64_val a * f64_val b\<bar> \<le> 2 ^ 64"
  shows "isFinite (f64_mul a b)" and "f64_val (f64_mul a b) = f64_val a * f64_val b"
proof -
  define M where "M = significand a * significand b"
  define E where "E = exponent a + exponent b"
  define s where "s = (sign_bit a \<noteq> sign_bit b)"
  have P: "f64_mul a b = f64_round s M E"
    using f64_mul_finite[OF fa fb] by (simp add: M_def E_def s_def)
  have x: "(of_nat M :: rat) * 2 powi E = \<bar>f64_val a * f64_val b\<bar>"
    unfolding M_def E_def by (simp only: f64_mul_exact_product abs_mult)
  from small have "(of_nat M :: rat) * 2 powi E \<le> 2 ^ 64" by (simp only: x)
  then have fin: "isFinite (f64_round s M E)" by (rule f64_round_isFinite)
  then show "isFinite (f64_mul a b)" by (simp only: P)
  from rep(1) have "(of_nat M :: rat) * 2 powi E = of_nat m' * 2 powi e'" by (simp only: x)
  from f64_round_exact[OF fin this rep(2,3)]
  have av: "\<bar>f64_val (f64_mul a b)\<bar> = \<bar>f64_val a\<bar> * \<bar>f64_val b\<bar>"
    by (simp only: P x abs_mult)
  have sg: "sign_bit (f64_mul a b) = (sign_bit a \<noteq> sign_bit b)"
    by (simp add: P sign_bit_f64_round s_def)
  show "f64_val (f64_mul a b) = f64_val a * f64_val b"
    using f64_val_sign_abs[of "f64_mul a b"] f64_val_sign_abs[of a] f64_val_sign_abs[of b] av sg
    by (cases "sign_bit a"; cases "sign_bit b") simp_all
qed


lemma f64_mul_upper:
  assumes fa: "isFinite a" and fb: "isFinite b"
    and ma: "ma < 2 ^ 53" and ea: "- 1074 \<le> ea"
    and le: "\<bar>f64_val a * f64_val b\<bar> \<le> of_nat ma * 2 powi ea"
    and small: "(of_nat ma :: rat) * 2 powi ea \<le> 2 ^ 64"
  shows "isFinite (f64_mul a b)" and "\<bar>f64_val (f64_mul a b)\<bar> \<le> of_nat ma * 2 powi ea"
proof -
  define M where "M = significand a * significand b"
  define E where "E = exponent a + exponent b"
  define s where "s = (sign_bit a \<noteq> sign_bit b)"
  have P: "f64_mul a b = f64_round s M E"
    using f64_mul_finite[OF fa fb] by (simp add: M_def E_def s_def)
  have x: "(of_nat M :: rat) * 2 powi E = \<bar>f64_val a * f64_val b\<bar>"
    unfolding M_def E_def by (simp only: f64_mul_exact_product abs_mult)
  from le small have "(of_nat M :: rat) * 2 powi E \<le> 2 ^ 64" by (simp only: x)
  then have fin: "isFinite (f64_round s M E)" by (rule f64_round_isFinite)
  then show "isFinite (f64_mul a b)" by (simp only: P)
  from le have "(of_nat M :: rat) * 2 powi E \<le> of_nat ma * 2 powi ea" by (simp only: x)
  from f64_round_upper[OF fin ma ea this]
  show "\<bar>f64_val (f64_mul a b)\<bar> \<le> of_nat ma * 2 powi ea" by (simp only: P)
qed

lemma abs_trunc_rat_le: "\<bar>rat_of_int (trunc_rat x)\<bar> \<le> \<bar>x\<bar>"
proof (cases "x < 0")
  case True
  then have "trunc_rat x = \<lceil>x\<rceil>" by (simp add: trunc_rat_def)
  moreover have "x \<le> of_int \<lceil>x\<rceil>" by simp
  moreover from True have "\<lceil>x\<rceil> \<le> 0" by (simp add: ceiling_le_iff)
  then have "rat_of_int \<lceil>x\<rceil> \<le> 0" by simp
  ultimately show ?thesis using True by linarith
next
  case False
  then have "trunc_rat x = \<lfloor>x\<rfloor>" by (simp add: trunc_rat_def)
  moreover have "of_int \<lfloor>x\<rfloor> \<le> x" by simp
  moreover from False have "0 \<le> \<lfloor>x\<rfloor>" by simp
  then have "0 \<le> rat_of_int \<lfloor>x\<rfloor>" by simp
  ultimately show ?thesis using False by linarith
qed

lemma abs_le_of_trunc_rat:
  assumes "- (2 ^ 63) \<le> trunc_rat p" "trunc_rat p < 2 ^ 63"
  shows "\<bar>p\<bar> \<le> 2 ^ 64"
proof (cases "p < 0")
  case True
  with assms(1) have "(- (2 ^ 63) :: int) \<le> \<lceil>p\<rceil>" by (simp add: trunc_rat_def)
  then have "of_int (- (2 ^ 63)) - 1 < p" by (simp only: le_ceiling_iff)
  with True show ?thesis by simp
next
  case False
  with assms(2) have "\<lfloor>p\<rfloor> < (2 ^ 63 :: int)" by (simp add: trunc_rat_def)
  then have "p < of_int (2 ^ 63)" by (simp only: floor_less_iff)
  with False show ?thesis by simp
qed

section \<open>The next duration\<close>

text \<open>
  When the product of the interval and the multiplier is a float64 value, the new
  interval is that product truncated; when the multiplier is at least 1 and the interval
  is converted exactly, the new interval is not below the old one.
\<close>

lemma NextDuration_interval:
  "interval (snd (NextDuration cvt e)) =
     int64_of_float64 cvt (f64_mul (float64_of_int64 (interval e)) (multiplier e))"
  by (simp add: NextDuration_def)

lemma fst_NextDuration: "fst (NextDuration cvt e) = interval e"
  by (simp add: NextDuration_def)

lemma int64_of_float64_fits:
  assumes "fits_int64 f"
  shows "sint (int64_of_float64 cvt f) = trunc_rat (f64_val f)"
proof -
  from assms have "- (2 ^ 63) \<le> f64_trunc f" "f64_trunc f < 2 ^ 63"
    by (simp_all add: fits_int64_def)
  then have "sint (word_of_int (f64_trunc f) :: 64 word) = f64_trunc f"
    by (rule sint_word_of_int_64)
  with assms show ?thesis by (simp add: int64_of_float64_def f64_trunc_val)
qed


lemma NextDuration_exact:
  assumes fm: "isFinite (multiplier e)" and small: "\<bar>sint (interval e)\<bar> \<le> 2 ^ 53"
    and p: "p = rat_of_int (sint (interval e)) * f64_val (multiplier e)"
    and rep: "\<bar>p\<bar> = of_nat m' * 2 powi e'" "m' < 2 ^ 53" "- 1074 \<le> e'"
    and rng: "- (2 ^ 63) \<le> trunc_rat p" "trunc_rat p < 2 ^ 63"
  shows "sint (interval (snd (NextDuration cvt e))) = trunc_rat p"
proof -
  define A where "A = float64_of_int64 (interval e)"
  define m where "m = multiplier e"
  have fa: "isFinite A" unfolding A_def by (rule isFinite_float64_of_int64)
  have va: "f64_val A = rat_of_int (sint (interval e))"
    unfolding A_def using small by (rule float64_of_int64_exact)
  then have pv: "f64_val A * f64_val m = p" by (simp only: p m_def)
  have fb: "isFinite m" using fm by (simp only: m_def)
  have r1: "\<bar>f64_val A * f64_val m\<bar> = of_nat m' * 2 powi e'" using rep(1) by (simp only: pv)
  have r2: "\<bar>f64_val A * f64_val m\<bar> \<le> 2 ^ 64"
    using abs_le_of_trunc_rat[OF rng] by (simp only: pv)
  note ex = f64_mul_exact[OF fa fb r1 rep(2,3) r2]
  have "fits_int64 (f64_mul A m)"
    using ex(1) rng by (simp only: fits_int64_def f64_trunc_val ex(2) pv)
  then have "sint (int64_of_float64 cvt (f64_mul A m)) = trunc_rat (f64_val (f64_mul A m))"
    by (rule int64_of_float64_fits)
  then show ?thesis by (simp only: NextDuration_interval A_def m_def ex(2)[unfolded A_def m_def] pv[unfolded A_def m_def])
qed

lemma NextDuration_exact_int:
  assumes fm: "isFinite (multiplier e)" and small: "\<bar>sint (interval e)\<bar> \<le> 2 ^ 53"
    and p: "rat_of_int (sint (interval e)) * f64_val (multiplier e) = rat_of_int P"
    and P: "\<bar>P\<bar> \<le> 2 ^ 53"
  shows "sint (interval (snd (NextDuration cvt e))) = P"
proof -
  define M where "M = nat \<bar>P\<bar>"
  have M: "M \<le> 2 ^ 53" using P by (simp add: M_def)
  have aP: "\<bar>rat_of_int P\<bar> = of_nat M" by (simp add: M_def)
  obtain m' :: nat and e' :: int where "\<bar>rat_of_int P\<bar> = of_nat m' * 2 powi e'"
    "m' < 2 ^ 53" "- 1074 \<le> e'"
  proof (cases "M = 2 ^ 53")
    case True
    have "(of_nat (2 ^ 53) :: rat) = of_nat (2 ^ 52) * 2 powi 1" by simp
    then have "\<bar>rat_of_int P\<bar> = of_nat (2 ^ 52) * 2 powi 1"
      by (simp only: aP True)
    moreover have "(2::nat) ^ 52 < 2 ^ 53" by simp
    moreover have "- 1074 \<le> (1::int)" by simp
    ultimately show ?thesis by (rule that)
  next
    case False
    with M have "M < 2 ^ 53" by simp
    moreover have "- 1074 \<le> (0::int)" by simp
    moreover have "\<bar>rat_of_int P\<bar> = of_nat M * 2 powi 0" using aP by simp
    ultimately show ?thesis using that[of M 0] by blast
  qed
  note rep = this
  have t: "trunc_rat (rat_of_int P) = P" by (simp add: trunc_rat_def)
  have "- (2 ^ 63) \<le> P" "P < 2 ^ 63" using P by simp_all
  then have rng: "- (2 ^ 63) \<le> trunc_rat (rat_of_int P)" "trunc_rat (rat_of_int P) < 2 ^ 63"
    by (simp_all only: t)
  from NextDuration_exact[OF fm small p[symmetric] rep rng] show ?thesis by (simp only: t)
qed


lemma fits_int64_product:
  assumes fm: "isFinite (multiplier e)" and small: "\<bar>sint (interval e)\<bar> \<le> 2 ^ 53"
    and le: "\<bar>rat_of_int (sint (interval e)) * f64_val (multiplier e)\<bar> \<le> 2 ^ 63 - 1024"
  shows "fits_int64 (f64_mul (float64_of_int64 (interval e)) (multiplier e))"
proof -
  define A where "A = float64_of_int64 (interval e)"
  define m where "m = multiplier e"
  define P where "P = f64_mul A m"
  have fa: "isFinite A" unfolding A_def by (rule isFinite_float64_of_int64)
  have va: "f64_val A = rat_of_int (sint (interval e))"
    unfolding A_def using small by (rule float64_of_int64_exact)
  have top: "(of_nat (2 ^ 53 - 1) :: rat) * 2 powi 10 = 2 ^ 63 - 1024" by simp
  have le': "\<bar>f64_val A * f64_val m\<bar> \<le> of_nat (2 ^ 53 - 1) * 2 powi 10"
    using le by (simp only: va m_def top)
  have "(of_nat (2 ^ 53 - 1) :: rat) * 2 powi 10 \<le> 2 ^ 64" by simp
  from f64_mul_upper[OF fa _ _ _ le' this, of ] fm
  have fin: "isFinite P" and up: "\<bar>f64_val P\<bar> \<le> 2 ^ 63 - 1024"
    by (simp_all add: m_def P_def)
  have "\<bar>rat_of_int (f64_trunc P)\<bar> \<le> \<bar>f64_val P\<bar>"
    unfolding f64_trunc_val by (rule abs_trunc_rat_le)
  with up have "\<bar>rat_of_int (f64_trunc P)\<bar> \<le> rat_of_int (2 ^ 63 - 1024)" by simp
  then have "\<bar>f64_trunc P\<bar> \<le> 2 ^ 63 - 1024"
    by (simp only: of_int_abs[symmetric] of_int_le_iff)
  then have "- (2 ^ 63) \<le> f64_trunc P" "f64_trunc P < 2 ^ 63" by simp_all
  with fin show ?thesis by (simp add: fits_int64_def P_def A_def m_def)
qed

subsection \<open>Timers of the tests and of the claims\<close>

lemma f64_const_2: "f64_const 2 0 = \<lparr>sign_bit = False, exp_bits = 1024, frac_bits = 0\<rparr>"
  by (simp add: f64_eval)


lemma NextDuration_doubling:
  "NextDuration cvt (NewExpTimer 1 (f64_const 2 0)) = (1, NewExpTimer 2 (f64_const 2 0))"
  "NextDuration cvt (NewExpTimer 2 (f64_const 2 0)) = (2, NewExpTimer 4 (f64_const 2 0))"
  "NextDuration cvt (NewExpTimer 4 (f64_const 2 0)) = (4, NewExpTimer 8 (f64_const 2 0))"
  "NextDuration cvt (NewExpTimer 8 (f64_const 2 0)) = (8, NewExpTimer 16 (f64_const 2 0))"
  "NextDuration cvt (NewExpTimer 16 (f64_const 2 0)) = (16, NewExpTimer 32 (f64_const 2 0))"
  "NextDuration cvt (NewExpTimer 32 (f64_const 2 0)) = (32, NewExpTimer 64 (f64_const 2 0))"
  "NextDuration cvt (NewExpTimer 64 (f64_const 2 0)) = (64, NewExpTimer 128 (f64_const 2 0))"
  "NextDuration cvt (NewExpTimer 128 (f64_const 2 0)) = (128, NewExpTimer 256 (f64_const 2 0))"
  "NextDuration cvt (NewExpTimer 256 (f64_const 2 0)) = (256, NewExpTimer 512 (f64_const 2 0))"
  "NextDuration cvt (NewExpTimer 512 (f64_const 2 0)) = (512, NewExpTimer 1024 (f64_const 2 0))"
  by (simp_all add: f64_const_2 NextDuration_def NewExpTimer_def f64_eval)

lemma durations_doubling:
  "durations cvt 10 (NewExpTimer 1 (f64_const 2 0)) = [1, 2, 4, 8, 16, 32, 64, 128, 256, 512]"
proof -
  have "(10::nat) = Suc (Suc (Suc (Suc (Suc (Suc (Suc (Suc (Suc (Suc 0)))))))))" by simp
  then show ?thesis by (simp only: durations.simps NextDuration_doubling prod.case)
qed

lemma NextDuration_stuck:
  "NextDuration cvt (NewExpTimer Nanosecond DefaultMultiplier) =
     (1, NewExpTimer Nanosecond DefaultMultiplier)"
  by (simp add: NextDuration_def NewExpTimer_def Nanosecond_def DefaultMultiplier_bits f64_eval)

lemma f64_val_DefaultMultiplier: "f64_val DefaultMultiplier = 3 / 2"
  by (simp add: DefaultMultiplier_bits f64_val_def significand_def exponent_def)



text \<open>
  A product that int64 cannot hold: on amd64 the interval \<open>2 ^ 62\<close> with the
  multiplier 2 becomes the least int64.
\<close>

lemma NextDuration_overflow:
  "NextDuration cvt_amd64 (NewExpTimer 4611686018427387904 (f64_const 2 0)) =
     (4611686018427387904, NewExpTimer (- 9223372036854775808) (f64_const 2 0))"
  by (simp add: f64_const_2 NextDuration_def NewExpTimer_def f64_eval cvt_amd64_def)

lemma stuck_forever:
  "durations cvt n (NewExpTimer Nanosecond DefaultMultiplier) = replicate n 1"
  "advance cvt n (NewExpTimer Nanosecond DefaultMultiplier) = NewExpTimer Nanosecond DefaultMultiplier"
  by (induction n) (simp_all add: NextDuration_stuck)

lemma f64_val_f64_const_5_half: "isFinite (f64_const 5 (- 1))" "f64_val (f64_const 5 (- 1)) = 5 / 2"
  by (simp_all add: f64_eval f64_val_def)

text \<open>
  The new interval in every state: the truncation of the float64 product when that fits
  int64, the implementation's conversion otherwise.
\<close>

lemma fits_int64_iff:
  "fits_int64 f \<longleftrightarrow>
     isFinite f \<and> - (2 ^ 63) \<le> trunc_rat (f64_val f) \<and> trunc_rat (f64_val f) < 2 ^ 63"
  by (simp add: fits_int64_def f64_trunc_val)

lemma int64_of_float64_unfit: "\<not> fits_int64 f \<Longrightarrow> int64_of_float64 cvt f = cvt f"
  by (simp add: int64_of_float64_def)

lemma trunc_rat_fraction: "\<bar>x - rat_of_int (trunc_rat x)\<bar> < 1"
proof (cases "x < 0")
  case True
  then have t: "trunc_rat x = \<lceil>x\<rceil>" by (simp add: trunc_rat_def)
  have "x \<le> of_int \<lceil>x\<rceil>" "of_int \<lceil>x\<rceil> < x + 1" by linarith+
  then have "\<bar>x - rat_of_int \<lceil>x\<rceil>\<bar> < 1" by linarith
  then show ?thesis by (simp only: t)
next
  case False
  then have t: "trunc_rat x = \<lfloor>x\<rfloor>" by (simp add: trunc_rat_def)
  have "of_int \<lfloor>x\<rfloor> \<le> x" "x < of_int \<lfloor>x\<rfloor> + 1" by linarith+
  then have "\<bar>x - rat_of_int \<lfloor>x\<rfloor>\<bar> < 1" by linarith
  then show ?thesis by (simp only: t)
qed

lemma NextDuration_nearest:
  assumes fm: "isFinite (multiplier e)" and small: "\<bar>sint (interval e)\<bar> \<le> 2 ^ 53"
    and le: "\<bar>exact_product e\<bar> \<le> 2 ^ 63 - 1024"
  shows "nearest_even (exact_product e) (float_product e)"
    and "sint (interval (snd (NextDuration cvt e))) = trunc_rat (f64_val (float_product e))"
    and "nearest_even (exact_product e) Q \<Longrightarrow>
           sint (interval (snd (NextDuration cvt e))) = trunc_rat (f64_val Q)"
proof -
  have fits: "fits_int64 (float_product e)"
    using fm small le by (rule fits_int64_product)
  then have fin: "isFinite (float_product e)" by (simp add: fits_int64_def)
  have va: "f64_val (float_interval e) = rat_of_int (sint (interval e))"
    using small by (rule float64_of_int64_exact)
  have "nearest_even (f64_val (float_interval e) * f64_val (multiplier e)) (float_product e)"
    using isFinite_float64_of_int64 fm fin by (rule f64_mul_nearest_even)
  then show n: "nearest_even (exact_product e) (float_product e)" by (simp only: va)
  from fits have "sint (int64_of_float64 cvt (float_product e))
      = trunc_rat (f64_val (float_product e))"
    by (rule int64_of_float64_fits)
  then show t: "sint (interval (snd (NextDuration cvt e))) = trunc_rat (f64_val (float_product e))"
    by (simp only: NextDuration_interval)
  assume "nearest_even (exact_product e) Q"
  from this n have "f64_val Q = f64_val (float_product e)" by (rule nearest_even_unique)
  with t show "sint (interval (snd (NextDuration cvt e))) = trunc_rat (f64_val Q)" by simp
qed

lemma NextDuration_fits:
  assumes "isFinite (float_product e)"
    and "- (2 ^ 63) \<le> trunc_rat (f64_val (float_product e))"
    and "trunc_rat (f64_val (float_product e)) < 2 ^ 63"
  shows "sint (interval (snd (NextDuration cvt e))) = trunc_rat (f64_val (float_product e))"
proof -
  from assms have "fits_int64 (float_product e)" by (simp only: fits_int64_iff)
  then have "sint (int64_of_float64 cvt (float_product e))
      = trunc_rat (f64_val (float_product e))"
    by (rule int64_of_float64_fits)
  then show ?thesis by (simp only: NextDuration_interval)
qed

lemma NextDuration_unfit:
  assumes "\<not> (isFinite (float_product e)
      \<and> - (2 ^ 63) \<le> trunc_rat (f64_val (float_product e))
      \<and> trunc_rat (f64_val (float_product e)) < 2 ^ 63)"
  shows "interval (snd (NextDuration cvt e)) = cvt (float_product e)"
proof -
  from assms have "\<not> fits_int64 (float_product e)" by (simp add: fits_int64_iff)
  then have "int64_of_float64 cvt (float_product e) = cvt (float_product e)"
    by (rule int64_of_float64_unfit)
  then show ?thesis by (simp only: NextDuration_interval)
qed

lemma NextDuration_inexact:
  "NextDuration cvt
     (NewExpTimer 500000000 \<lparr>sign_bit = False, exp_bits = 0x3FF, frac_bits = 0x199999999999A\<rparr>)
   = (500000000,
      NewExpTimer 550000000 \<lparr>sign_bit = False, exp_bits = 0x3FF, frac_bits = 0x199999999999A\<rparr>)"
  by (simp add: NextDuration_def NewExpTimer_def f64_eval)

lemma NextDuration_ties:
  "NextDuration cvt (NewExpTimer 9007199254740990 DefaultMultiplier)
     = (9007199254740990, NewExpTimer 13510798882111484 DefaultMultiplier)"
  "NextDuration cvt (NewExpTimer 9007199254740986 DefaultMultiplier)
     = (9007199254740986, NewExpTimer 13510798882111480 DefaultMultiplier)"
  by (simp_all add: NextDuration_def NewExpTimer_def DefaultMultiplier_bits f64_eval)

lemma NextDuration_towards_zero:
  "NextDuration cvt (NewExpTimer 3 (f64_const 5 (- 1))) = (3, NewExpTimer 7 (f64_const 5 (- 1)))"
  "NextDuration cvt (NewExpTimer (- 3) (f64_const 5 (- 1)))
     = (- 3, NewExpTimer (- 7) (f64_const 5 (- 1)))"
  by (simp_all add: NextDuration_def NewExpTimer_def f64_eval)

lemma NextDuration_product_NaN:
  "isNaN (multiplier e) \<Longrightarrow> isNaN (float_product e)"
  by (simp add: f64_mul_NaN)

lemma NextDuration_product_Inf:
  assumes "isInf (multiplier e)"
  shows "interval e = 0 \<Longrightarrow> isNaN (float_product e)"
    and "interval e \<noteq> 0 \<Longrightarrow>
      float_product e = f64_Inf ((sint (interval e) < 0) \<noteq> sign_bit (multiplier e))"
proof -
  have n: "\<not> isNaN (float_interval e)"
    using isFinite_float64_of_int64 by (rule not_isNaN_finite)
  note P = f64_mul_Inf[OF n assms]
  show "isNaN (float_product e)" if "interval e = 0"
    using that P by (simp add: isZero_float64_of_int64 isNaN_def f64_NaN_def)
  show "float_product e = f64_Inf ((sint (interval e) < 0) \<noteq> sign_bit (multiplier e))"
    if "interval e \<noteq> 0"
    using that P by (simp add: isZero_float64_of_int64 sign_bit_float64_of_int64)
qed

lemma NextDuration_product_finite:
  assumes fm: "isFinite (multiplier e)"
  shows "sign_bit (float_product e) = ((sint (interval e) < 0) \<noteq> sign_bit (multiplier e))"
    and "isFinite (float_product e) \<longleftrightarrow>
      \<bar>f64_val (float_interval e) * f64_val (multiplier e)\<bar> < (2 ^ 54 - 1) * 2 powi 970"
    and "isFinite (float_product e) \<Longrightarrow>
      nearest_even (f64_val (float_interval e) * f64_val (multiplier e)) (float_product e)"
    and "\<not> isFinite (float_product e) \<Longrightarrow>
      float_product e = f64_Inf ((sint (interval e) < 0) \<noteq> sign_bit (multiplier e))"
proof -
  note fa = isFinite_float64_of_int64[of "interval e"]
  show "sign_bit (float_product e) = ((sint (interval e) < 0) \<noteq> sign_bit (multiplier e))"
    using sign_bit_f64_mul[OF fa fm] by (simp only: sign_bit_float64_of_int64)
  show "isFinite (float_product e) \<longleftrightarrow>
      \<bar>f64_val (float_interval e) * f64_val (multiplier e)\<bar> < (2 ^ 54 - 1) * 2 powi 970"
    using fa fm by (rule f64_mul_finite_iff)
  show "isFinite (float_product e) \<Longrightarrow>
      nearest_even (f64_val (float_interval e) * f64_val (multiplier e)) (float_product e)"
    using fa fm by (rule f64_mul_nearest_even)
  assume "\<not> isFinite (float_product e)"
  with fa fm have "float_product e = f64_Inf (sign_bit (float_interval e) \<noteq> sign_bit (multiplier e))"
    by (rule f64_mul_overflow)
  then show "float_product e = f64_Inf ((sint (interval e) < 0) \<noteq> sign_bit (multiplier e))"
    by (simp only: sign_bit_float64_of_int64)
qed

lemma f64_val_max:
  "f64_val \<lparr>sign_bit = False, exp_bits = 2046, frac_bits = 0xFFFFFFFFFFFFF\<rparr>
     = (2 ^ 53 - 1) * 2 powi 971"
  by (simp add: f64_val_def significand_def exponent_def)

section \<open>The retry loop\<close>

text \<open>One round of the loop, in each of its three outcomes.\<close>

lemma Retry_stops:
  "retryFunc (world s) = ((False, err), w1) \<Longrightarrow>
   ExpTimer_Retry cvt time_Sleep ctx retryFunc s =
     Some (err, s\<lparr>world := w1, history := history s @ [Called False err]\<rparr>)"
  by (subst ExpTimer_Retry.simps) simp

lemma Retry_cancelled:
  "retryFunc (world s) = ((True, err), w1) \<Longrightarrow> Done ctx w1 \<Longrightarrow>
   ExpTimer_Retry cvt time_Sleep ctx retryFunc s =
     Some (Err ctx w1,
           s\<lparr>world := w1, history := history s @ [Called True err, Cancelled (Err ctx w1)]\<rparr>)"
  by (subst ExpTimer_Retry.simps) simp

lemma Retry_again:
  "retryFunc (world s) = ((True, err), w1) \<Longrightarrow> \<not> Done ctx w1 \<Longrightarrow>
   ExpTimer_Retry cvt time_Sleep ctx retryFunc s =
     ExpTimer_Retry cvt time_Sleep ctx retryFunc
       (Sleep cvt time_Sleep
          (s\<lparr>world := w1, history := history s @ [Called True err, NotCancelled]\<rparr>))"
  by (subst ExpTimer_Retry.simps) simp

lemma history_Sleep:
  "history (Sleep cvt time_Sleep s) = history s @ [Slept (fst (NextDuration cvt (timer s)))]"
  by (simp add: Sleep_def split: prod.splits)

lemma timer_Sleep: "timer (Sleep cvt time_Sleep s) = snd (NextDuration cvt (timer s))"
  by (simp add: Sleep_def split: prod.splits)


lemma multiplier_NextDuration: "multiplier (snd (NextDuration cvt e)) = multiplier e"
  by (simp add: NextDuration_def)


text \<open>
  Partial correctness, by the induction rule of the loop: whatever a retry returns, the
  events it added form a \<open>retry_trace\<close>, every sleep lasted the whole next duration of
  the timer, and the multiplier is the one it started with.
\<close>

lemma Retry_returns_trace:
  "ExpTimer_Retry cvt time_Sleep ctx retryFunc s = Some y \<Longrightarrow>
   (\<exists>tr. history (snd y) = history s @ tr \<and> retry_trace tr (fst y)
      \<and> sleeps_of tr = durations cvt (length (sleeps_of tr)) (timer s))
   \<and> multiplier (timer (snd y)) = multiplier (timer s)"
proof (induction rule: ExpTimer_Retry.raw_induct[rotated 1, consumes 1, case_names step])
  case (step loop cvt time_Sleep ctx retryFunc s y)
  obtain isRetry err w1 where call: "retryFunc (world s) = ((isRetry, err), w1)"
    by (metis prod.exhaust)
  show ?case
  proof (cases isRetry)
    case False
    with call step(2) show ?thesis by auto
  next
    case True
    show ?thesis
    proof (cases "Done ctx w1")
      case True
      with call \<open>isRetry\<close> step(2) show ?thesis by auto
    next
      case False
      let ?s1 = "s\<lparr>world := w1, history := history s @ [Called True err, NotCancelled]\<rparr>"
      let ?d = "fst (NextDuration cvt (timer s))"
      from call \<open>isRetry\<close> False step(2)
      have "loop cvt time_Sleep ctx retryFunc (Sleep cvt time_Sleep ?s1) = Some y" by simp
      from step(1)[OF this]
      obtain tr where tr: "history (snd y) = history (Sleep cvt time_Sleep ?s1) @ tr"
        "retry_trace tr (fst y)"
        "sleeps_of tr = durations cvt (length (sleeps_of tr)) (timer (Sleep cvt time_Sleep ?s1))"
        and m: "multiplier (timer (snd y)) = multiplier (timer (Sleep cvt time_Sleep ?s1))"
        by blast
      let ?tr = "Called True err # NotCancelled # Slept ?d # tr"
      from tr(1) have "history (snd y) = history s @ ?tr"
        by (simp add: history_Sleep)
      moreover have "retry_trace ?tr (fst y)"
        using tr(2) by simp
      moreover have "sleeps_of ?tr = durations cvt (length (sleeps_of ?tr)) (timer s)"
        using tr(3) by (simp add: timer_Sleep case_prod_unfold)
      moreover from m have "multiplier (timer (snd y)) = multiplier (timer s)"
        by (simp add: timer_Sleep multiplier_NextDuration)
      ultimately show ?thesis by blast
    qed
  qed
qed







lemma Retry_first_event:
  assumes call: "retryFunc (world s) = ((isRetry, err), w1)"
    and ret: "ExpTimer_Retry cvt time_Sleep ctx retryFunc s = Some y"
  shows "\<exists>rest. history (snd y) = history s @ Called isRetry err # rest"
proof (cases "isRetry \<and> \<not> Done ctx w1")
  case False
  with call ret show ?thesis
    by (subst (asm) ExpTimer_Retry.simps) (auto split: if_splits)
next
  case True
  let ?s1 = "s\<lparr>world := w1, history := history s @ [Called True err, NotCancelled]\<rparr>"
  from call True ret
  have "ExpTimer_Retry cvt time_Sleep ctx retryFunc (Sleep cvt time_Sleep ?s1) = Some y"
    by (subst (asm) ExpTimer_Retry.simps) simp
  from Retry_returns_trace[OF this]
  obtain tr where "history (snd y) = history (Sleep cvt time_Sleep ?s1) @ tr" by blast
  with True show ?thesis by (simp add: history_Sleep)
qed

section \<open>Runs of the tests\<close>




text \<open>
  The test with a deadline of one second and an operation that always asks for a retry:
  the deadline passes during the second sleep and is seen after the third call.
\<close>

lemma run_until_deadline:
  "ExpTimer_Retry cvt clock_Sleep (WithDeadline 1000000000) always_retry
     \<lparr>timer = spec_default_timer, world = \<lparr>retryCount = 0, now = 0\<rparr>, history = []\<rparr> =
   Some (Some DeadlineExceeded,
     \<lparr>timer = spec_default_timer\<lparr>interval := 1125000000\<rparr>,
      world = \<lparr>retryCount = 0, now = 1250000000\<rparr>,
      history = [Called True None, NotCancelled, Slept 500000000,
                 Called True None, NotCancelled, Slept 750000000,
                 Called True None, Cancelled (Some DeadlineExceeded)]\<rparr>)"
  apply (subst ExpTimer_Retry.simps)
  apply (simp add: always_retry_def WithDeadline_def Sleep_def clock_Sleep_def
      NextDuration_default_1)
  apply (subst ExpTimer_Retry.simps)
  apply (simp add: always_retry_def WithDeadline_def Sleep_def clock_Sleep_def
      NextDuration_default_2)
  apply (subst ExpTimer_Retry.simps)
  apply (simp add: always_retry_def WithDeadline_def)
  done

section \<open>The claims\<close>



text \<open>
  C3. Whenever a call of the operation asks for a retry and the context is done at the
  check that follows, the retry returns the error of the context at once: the history
  gains that call and that check only, so no sleep and no further call, and the timer is
  not advanced. The state \<open>s\<close> is any state of the loop, the first round or a later one.
\<close>

theorem Retry_cancelled_after_call:
  assumes "retryFunc (world s) = ((True, err), w1)" and "Done ctx w1"
  shows "\<exists>s'. ExpTimer_Retry cvt time_Sleep ctx retryFunc s = Some (Err ctx w1, s')
     \<and> history s' = history s @ [Called True err, Cancelled (Err ctx w1)]
     \<and> sleeps_of [Called True err, Cancelled (Err ctx w1)] = []
     \<and> calls_of [Called True err, Cancelled (Err ctx w1)] = 1
     \<and> timer s' = timer s \<and> world s' = w1"
proof -
  have "ExpTimer_Retry cvt time_Sleep ctx retryFunc s =
      Some (Err ctx w1,
        s\<lparr>world := w1, history := history s @ [Called True err, Cancelled (Err ctx w1)]\<rparr>)"
    using assms by (rule Retry_cancelled)
  then show ?thesis by simp
qed

theorem Retry_cancelled_after_call_witness:
  "\<exists>s'. ExpTimer_Retry cvt_amd64 clock_Sleep (WithDeadline 1000000000) always_retry
       \<lparr>timer = spec_default_timer\<lparr>interval := 1125000000\<rparr>,
        world = \<lparr>retryCount = 0, now = 1250000000\<rparr>,
        history = [Called True None, NotCancelled, Slept 500000000,
                   Called True None, NotCancelled, Slept 750000000]\<rparr>
      = Some (Some DeadlineExceeded, s')
     \<and> history s' = [Called True None, NotCancelled, Slept 500000000,
                     Called True None, NotCancelled, Slept 750000000,
                     Called True None, Cancelled (Some DeadlineExceeded)]
     \<and> timer s' = spec_default_timer\<lparr>interval := 1125000000\<rparr>
     \<and> world s' = \<lparr>retryCount = 0, now = 1250000000\<rparr>"
  using Retry_cancelled_after_call[of always_retry
      "\<lparr>timer = spec_default_timer\<lparr>interval := 1125000000\<rparr>,
        world = \<lparr>retryCount = 0, now = 1250000000\<rparr>,
        history = [Called True None, NotCancelled, Slept 500000000,
                   Called True None, NotCancelled, Slept 750000000]\<rparr>"
      None "\<lparr>retryCount = 0, now = 1250000000\<rparr>" "WithDeadline 1000000000"
      cvt_amd64 clock_Sleep]
  by (simp add: always_retry_def WithDeadline_def)

text \<open>
  C4. Whenever a call of the operation returns \<open>(false, err)\<close>, the retry returns at
  that call with exactly \<open>err\<close>, \<^verbatim>\<open>nil\<close> (\<open>None\<close>) or not, whatever the
  context says.
\<close>

theorem Retry_returns_stop_error:
  assumes "retryFunc (world s) = ((False, err), w1)"
  shows "ExpTimer_Retry cvt time_Sleep ctx retryFunc s =
     Some (err, s\<lparr>world := w1, history := history s @ [Called False err]\<rparr>)"
  using assms by (rule Retry_stops)

theorem Retry_returns_stop_error_witness:
  "ExpTimer_Retry cvt_amd64 clock_Sleep (WithDeadline 60000000000)
       (stop_with (Some (errorString ''sample error'')))
       \<lparr>timer = spec_default_timer, world = \<lparr>retryCount = 0, now = 0\<rparr>, history = []\<rparr>
     = Some (Some (errorString ''sample error''),
         \<lparr>timer = spec_default_timer, world = \<lparr>retryCount = 0, now = 0\<rparr>,
          history = [Called False (Some (errorString ''sample error''))]\<rparr>)
   \<and> ExpTimer_Retry cvt_amd64 clock_Sleep (WithDeadline 60000000000) (retry_up_to 0)
       \<lparr>timer = spec_default_timer, world = \<lparr>retryCount = 0, now = 0\<rparr>, history = []\<rparr>
     = Some (None,
         \<lparr>timer = spec_default_timer, world = \<lparr>retryCount = 1, now = 0\<rparr>,
          history = [Called False None]\<rparr>)"
  using Retry_returns_stop_error[of "stop_with (Some (errorString ''sample error''))"
      "\<lparr>timer = spec_default_timer, world = \<lparr>retryCount = 0, now = 0\<rparr>, history = []\<rparr>"
      "Some (errorString ''sample error'')" "\<lparr>retryCount = 0, now = 0\<rparr>"
      cvt_amd64 clock_Sleep "WithDeadline 60000000000"]
    Retry_returns_stop_error[of "retry_up_to 0"
      "\<lparr>timer = spec_default_timer, world = \<lparr>retryCount = 0, now = 0\<rparr>, history = []\<rparr>"
      None "\<lparr>retryCount = 1, now = 0\<rparr>"
      cvt_amd64 clock_Sleep "WithDeadline 60000000000"]
  by (simp add: stop_with_def retry_up_to_def)

text \<open>
  C6. The package-level \<^verbatim>\<open>Retry\<close> gives the result, the calls and the sleeps of
  \<^verbatim>\<open>DefaultExpTimer().Retry\<close>, and the default timer is the one the specification
  words: an interval of 500 milliseconds and the multiplier 1.5.
\<close>

theorem Retry_default_settings:
  "Retry cvt time_Sleep ctx retryFunc w = spec_Retry cvt time_Sleep ctx retryFunc w
   \<and> Retry cvt time_Sleep ctx retryFunc w =
       map_option (\<lambda>(err, s). (err, world s, history s))
         (ExpTimer_Retry cvt time_Sleep ctx retryFunc
            \<lparr>timer = DefaultExpTimer, world = w, history = []\<rparr>)
   \<and> DefaultExpTimer = spec_default_timer
   \<and> sint (interval spec_default_timer) = 500 * 1000000
   \<and> f64_val (multiplier spec_default_timer) = 3 / 2"
  by (simp add: Retry_def spec_Retry_def DefaultExpTimer_eq spec_default_timer_def
      f64_val_def significand_def exponent_def)

text \<open>
  C7. A retry that returns has left a \<open>retry_trace\<close>: the context is consulted only
  right after a call that asked for a retry and before the sleep that would follow, so
  never before the first call; its error is the result only when that check found it
  done; and no sleep is cut short, each lasts the full next duration of the timer and is
  followed by a call.
\<close>

theorem Retry_cancellation_points:
  assumes "ExpTimer_Retry cvt time_Sleep ctx retryFunc s = Some (r, s')"
  shows "\<exists>tr. history s' = history s @ tr \<and> retry_trace tr r
     \<and> sleeps_of tr = durations cvt (length (sleeps_of tr)) (timer s)"
  using Retry_returns_trace[OF assms] by simp

theorem Retry_cancellation_points_witness:
  "ExpTimer_Retry cvt_amd64 clock_Sleep (WithDeadline 1000000000) always_retry
     \<lparr>timer = spec_default_timer, world = \<lparr>retryCount = 0, now = 0\<rparr>, history = []\<rparr> =
   Some (Some DeadlineExceeded,
     \<lparr>timer = spec_default_timer\<lparr>interval := 1125000000\<rparr>,
      world = \<lparr>retryCount = 0, now = 1250000000\<rparr>,
      history = [Called True None, NotCancelled, Slept 500000000,
                 Called True None, NotCancelled, Slept 750000000,
                 Called True None, Cancelled (Some DeadlineExceeded)]\<rparr>)
   \<and> (\<exists>tr. tr = [Called True None, NotCancelled, Slept 500000000,
                 Called True None, NotCancelled, Slept 750000000,
                 Called True None, Cancelled (Some DeadlineExceeded)]
        \<and> retry_trace tr (Some DeadlineExceeded)
        \<and> sleeps_of tr = durations cvt_amd64 (length (sleeps_of tr)) spec_default_timer)"
  using Retry_cancellation_points[OF run_until_deadline[of cvt_amd64]]
    run_until_deadline[of cvt_amd64]
  by (simp add: NextDuration_default_1 NextDuration_default_2)

text \<open>
  C8. With a context that is already done when the retry is entered, the operation is
  called all the same, first of all; when that call returns \<open>(false, err)\<close> the result
  is \<open>err\<close> and not the error of the context; when it asks for a retry and the
  context is still done, the result is the error of the context.
\<close>

theorem Retry_calls_before_checking:
  assumes "Done ctx (world s)" and "retryFunc (world s) = ((isRetry, err), w1)"
  shows "(\<forall>y. ExpTimer_Retry cvt time_Sleep ctx retryFunc s = Some y \<longrightarrow>
            (\<exists>rest. history (snd y) = history s @ Called isRetry err # rest))
     \<and> (\<not> isRetry \<longrightarrow> ExpTimer_Retry cvt time_Sleep ctx retryFunc s =
            Some (err, s\<lparr>world := w1, history := history s @ [Called False err]\<rparr>))
     \<and> (isRetry \<and> Done ctx w1 \<longrightarrow> ExpTimer_Retry cvt time_Sleep ctx retryFunc s =
            Some (Err ctx w1, s\<lparr>world := w1,
                   history := history s @ [Called True err, Cancelled (Err ctx w1)]\<rparr>))"
proof (intro conjI allI impI)
  fix y
  assume "ExpTimer_Retry cvt time_Sleep ctx retryFunc s = Some y"
  with assms(2) show "\<exists>rest. history (snd y) = history s @ Called isRetry err # rest"
    by (rule Retry_first_event)
next
  assume "\<not> isRetry"
  with assms(2) have "retryFunc (world s) = ((False, err), w1)" by simp
  then show "ExpTimer_Retry cvt time_Sleep ctx retryFunc s =
      Some (err, s\<lparr>world := w1, history := history s @ [Called False err]\<rparr>)"
    by (rule Retry_stops)
next
  assume "isRetry \<and> Done ctx w1"
  with assms(2) have "retryFunc (world s) = ((True, err), w1)" and "Done ctx w1" by simp_all
  then show "ExpTimer_Retry cvt time_Sleep ctx retryFunc s =
      Some (Err ctx w1, s\<lparr>world := w1,
             history := history s @ [Called True err, Cancelled (Err ctx w1)]\<rparr>)"
    by (rule Retry_cancelled)
qed

theorem Retry_calls_before_checking_witness:
  "Done (WithDeadline 0) \<lparr>retryCount = 0, now = 0\<rparr>
   \<and> ExpTimer_Retry cvt_amd64 clock_Sleep (WithDeadline 0)
       (stop_with (Some (errorString ''sample error'')))
       \<lparr>timer = spec_default_timer, world = \<lparr>retryCount = 0, now = 0\<rparr>, history = []\<rparr>
     = Some (Some (errorString ''sample error''),
         \<lparr>timer = spec_default_timer, world = \<lparr>retryCount = 0, now = 0\<rparr>,
          history = [Called False (Some (errorString ''sample error''))]\<rparr>)"
  using Retry_calls_before_checking[of "WithDeadline 0"
      "\<lparr>timer = spec_default_timer, world = \<lparr>retryCount = 0, now = 0\<rparr>, history = []\<rparr>"
      "stop_with (Some (errorString ''sample error''))" False
      "Some (errorString ''sample error'')" "\<lparr>retryCount = 0, now = 0\<rparr>"
      cvt_amd64 clock_Sleep]
  by (simp add: stop_with_def WithDeadline_def)

text \<open>
  C10. The multiplier of a timer is the one given to \<^verbatim>\<open>NewExpTimer\<close> and no
  operation changes it: \<^verbatim>\<open>NextDuration\<close> updates the interval only, and
  \<^verbatim>\<open>Sleep\<close> and a returning \<^verbatim>\<open>Retry\<close> leave the multiplier as it was.
\<close>

theorem multiplier_never_modified:
  "multiplier (NewExpTimer i m) = m
   \<and> multiplier (snd (NextDuration cvt e)) = multiplier e
   \<and> snd (NextDuration cvt e) = e\<lparr>interval := interval (snd (NextDuration cvt e))\<rparr>
   \<and> multiplier (timer (Sleep cvt time_Sleep s)) = multiplier (timer s)
   \<and> (\<forall>r s'. ExpTimer_Retry cvt time_Sleep ctx retryFunc s = Some (r, s') \<longrightarrow>
         multiplier (timer s') = multiplier (timer s))"
proof (intro conjI allI impI)
  fix r s'
  assume "ExpTimer_Retry cvt time_Sleep ctx retryFunc s = Some (r, s')"
  from Retry_returns_trace[OF this] show "multiplier (timer s') = multiplier (timer s)"
    by simp
qed (simp_all add: NewExpTimer_def NextDuration_def timer_Sleep)

theorem multiplier_never_modified_witness:
  "ExpTimer_Retry cvt_amd64 clock_Sleep (WithDeadline 1000000000) always_retry
     \<lparr>timer = spec_default_timer, world = \<lparr>retryCount = 0, now = 0\<rparr>, history = []\<rparr> =
   Some (Some DeadlineExceeded,
     \<lparr>timer = spec_default_timer\<lparr>interval := 1125000000\<rparr>,
      world = \<lparr>retryCount = 0, now = 1250000000\<rparr>,
      history = [Called True None, NotCancelled, Slept 500000000,
                 Called True None, NotCancelled, Slept 750000000,
                 Called True None, Cancelled (Some DeadlineExceeded)]\<rparr>)
   \<and> multiplier (spec_default_timer\<lparr>interval := 1125000000\<rparr>) = multiplier spec_default_timer
   \<and> interval (spec_default_timer\<lparr>interval := 1125000000\<rparr>) \<noteq> interval spec_default_timer"
  using multiplier_never_modified[of "interval spec_default_timer" "multiplier spec_default_timer"
      cvt_amd64 spec_default_timer clock_Sleep
      "\<lparr>timer = spec_default_timer, world = \<lparr>retryCount = 0, now = 0\<rparr>, history = []\<rparr>"
      "WithDeadline 1000000000" always_retry]
    run_until_deadline[of cvt_amd64]
  by (simp add: spec_default_timer_def)

text \<open>
  C2, as stated, fails: a timer of 1 nanosecond with the multiplier 1.5 returns 1 and
  keeps the interval 1, which is not 1 times 1.5.
\<close>

theorem NextDuration_not_exact_product:
  "\<not> (fst (NextDuration cvt_amd64 (NewExpTimer Nanosecond DefaultMultiplier))
         = interval (NewExpTimer Nanosecond DefaultMultiplier)
       \<and> rat_of_int (sint (interval (snd (NextDuration cvt_amd64
             (NewExpTimer Nanosecond DefaultMultiplier)))))
         = rat_of_int (sint (interval (NewExpTimer Nanosecond DefaultMultiplier)))
             * f64_val (multiplier (NewExpTimer Nanosecond DefaultMultiplier)))"
proof -
  let ?e = "NewExpTimer Nanosecond DefaultMultiplier"
  have nd: "NextDuration cvt_amd64 ?e = (1, ?e)" by (rule NextDuration_stuck)
  have i: "sint (interval ?e) = 1" by (simp add: NewExpTimer_def Nanosecond_def)
  have m: "f64_val (multiplier ?e) = 3 / 2"
    by (simp add: NewExpTimer_def f64_val_DefaultMultiplier)
  have "rat_of_int 1 \<noteq> rat_of_int 1 * (3 / 2)" by simp
  then show ?thesis by (simp only: nd snd_conv i m) simp
qed

text \<open>
  C2, amended. \<^verbatim>\<open>NextDuration\<close> returns the current interval, and afterwards the
  interval is \<^verbatim>\<open>int64(float64(interval) * multiplier)\<close> as Go computes it, in every
  state. The converted interval is the float64 nearest to the interval, ties to even,
  with the sign of the interval. With a finite multiplier, the float64 product has the
  sign of the interval and the multiplier together; it is finite exactly when the
  converted interval times the multiplier is below \<open>(2 ^ 54 - 1) * 2 ^ 970\<close> in
  magnitude, it is then the float64 nearest to the converted interval times the
  multiplier, ties to even, and it is otherwise the infinity of that sign. With a NaN
  for multiplier the product is a NaN; with an infinity it is a NaN when the interval is
  0 and the infinity of the sign of the two otherwise. When the product is finite and
  its truncation towards zero lies in the range of int64, the new interval is that
  truncation, and otherwise it is what the conversion of the implementation makes of the
  product. In particular, when the multiplier is finite, the interval is at most
  \<open>2 ^ 53\<close> in magnitude and the exact product of the interval and the multiplier
  at most \<open>2 ^ 63 - 1024\<close>, the new interval is the truncation of the float64 nearest
  to the exact product, ties to even, whichever float64 of that kind is taken; it is the
  exact product truncated whenever the exact product is a float64 value
  (\<open>m' * 2 ^ e'\<close> with \<open>m' < 2 ^ 53\<close>), and the exact product itself whenever that
  is a whole number of magnitude at most \<open>2 ^ 53\<close>. For a timer of interval 1 and
  multiplier 2, ten successive calls return 1, 2, 4, 8, 16, 32, 64, 128, 256, 512.
\<close>

theorem NextDuration_returns_interval_then_multiplies:
  "fst (NextDuration cvt e) = interval e
   \<and> interval (snd (NextDuration cvt e)) = int64_of_float64 cvt (float_product e)
   \<and> nearest_even (rat_of_int (sint (interval e))) (float_interval e)
   \<and> sign_bit (float_interval e) = (sint (interval e) < 0)
   \<and> (isFinite (multiplier e) \<longrightarrow>
        sign_bit (float_product e) = ((sint (interval e) < 0) \<noteq> sign_bit (multiplier e))
        \<and> (isFinite (float_product e) \<longleftrightarrow>
             \<bar>f64_val (float_interval e) * f64_val (multiplier e)\<bar> < (2 ^ 54 - 1) * 2 powi 970)
        \<and> (isFinite (float_product e) \<longrightarrow>
             nearest_even (f64_val (float_interval e) * f64_val (multiplier e)) (float_product e))
        \<and> (\<not> isFinite (float_product e) \<longrightarrow>
             float_product e = f64_Inf ((sint (interval e) < 0) \<noteq> sign_bit (multiplier e))))
   \<and> (isNaN (multiplier e) \<longrightarrow> isNaN (float_product e))
   \<and> (isInf (multiplier e) \<longrightarrow>
        (interval e = 0 \<longrightarrow> isNaN (float_product e))
        \<and> (interval e \<noteq> 0 \<longrightarrow>
             float_product e = f64_Inf ((sint (interval e) < 0) \<noteq> sign_bit (multiplier e))))
   \<and> (isFinite (float_product e)
        \<and> - (2 ^ 63) \<le> trunc_rat (f64_val (float_product e))
        \<and> trunc_rat (f64_val (float_product e)) < 2 ^ 63
      \<longrightarrow> sint (interval (snd (NextDuration cvt e))) = trunc_rat (f64_val (float_product e)))
   \<and> (\<not> (isFinite (float_product e)
           \<and> - (2 ^ 63) \<le> trunc_rat (f64_val (float_product e))
           \<and> trunc_rat (f64_val (float_product e)) < 2 ^ 63)
      \<longrightarrow> interval (snd (NextDuration cvt e)) = cvt (float_product e))
   \<and> (isFinite (multiplier e) \<and> \<bar>sint (interval e)\<bar> \<le> 2 ^ 53
        \<and> \<bar>exact_product e\<bar> \<le> 2 ^ 63 - 1024
      \<longrightarrow> nearest_even (exact_product e) (float_product e)
          \<and> (\<forall>Q. nearest_even (exact_product e) Q \<longrightarrow>
                sint (interval (snd (NextDuration cvt e))) = trunc_rat (f64_val Q)))
   \<and> (isFinite (multiplier e) \<and> \<bar>sint (interval e)\<bar> \<le> 2 ^ 53
        \<and> \<bar>exact_product e\<bar> = of_nat m' * 2 powi e' \<and> m' < 2 ^ 53 \<and> - 1074 \<le> e'
        \<and> - (2 ^ 63) \<le> trunc_rat (exact_product e) \<and> trunc_rat (exact_product e) < 2 ^ 63
      \<longrightarrow> sint (interval (snd (NextDuration cvt e))) = trunc_rat (exact_product e))
   \<and> (isFinite (multiplier e) \<and> \<bar>sint (interval e)\<bar> \<le> 2 ^ 53
        \<and> exact_product e = rat_of_int P \<and> \<bar>P\<bar> \<le> 2 ^ 53
      \<longrightarrow> sint (interval (snd (NextDuration cvt e))) = P)
   \<and> durations cvt 10 (NewExpTimer 1 (f64_const 2 0)) = [1, 2, 4, 8, 16, 32, 64, 128, 256, 512]"
proof (intro conjI impI allI)
  show "fst (NextDuration cvt e) = interval e" by (rule fst_NextDuration)
next
  show "interval (snd (NextDuration cvt e)) = int64_of_float64 cvt (float_product e)"
    by (rule NextDuration_interval)
next
  show "nearest_even (rat_of_int (sint (interval e))) (float_interval e)"
    by (rule float64_of_int64_nearest_even)
next
  show "sign_bit (float_interval e) = (sint (interval e) < 0)"
    by (rule sign_bit_float64_of_int64)
next
  assume "isFinite (multiplier e)"
  then show "sign_bit (float_product e) = ((sint (interval e) < 0) \<noteq> sign_bit (multiplier e))"
    by (rule NextDuration_product_finite(1))
next
  assume "isFinite (multiplier e)"
  then show "isFinite (float_product e) \<longleftrightarrow>
      \<bar>f64_val (float_interval e) * f64_val (multiplier e)\<bar> < (2 ^ 54 - 1) * 2 powi 970"
    by (rule NextDuration_product_finite(2))
next
  assume "isFinite (multiplier e)" and "isFinite (float_product e)"
  then show "nearest_even (f64_val (float_interval e) * f64_val (multiplier e)) (float_product e)"
    by (rule NextDuration_product_finite(3))
next
  assume "isFinite (multiplier e)" and "\<not> isFinite (float_product e)"
  then show "float_product e = f64_Inf ((sint (interval e) < 0) \<noteq> sign_bit (multiplier e))"
    by (rule NextDuration_product_finite(4))
next
  assume "isNaN (multiplier e)"
  then show "isNaN (float_product e)" by (rule NextDuration_product_NaN)
next
  assume "isInf (multiplier e)" and "interval e = 0"
  then show "isNaN (float_product e)" by (rule NextDuration_product_Inf(1))
next
  assume "isInf (multiplier e)" and "interval e \<noteq> 0"
  then show "float_product e = f64_Inf ((sint (interval e) < 0) \<noteq> sign_bit (multiplier e))"
    by (rule NextDuration_product_Inf(2))
next
  assume "isFinite (float_product e)
        \<and> - (2 ^ 63) \<le> trunc_rat (f64_val (float_product e))
        \<and> trunc_rat (f64_val (float_product e)) < 2 ^ 63"
  then show "sint (interval (snd (NextDuration cvt e))) = trunc_rat (f64_val (float_product e))"
    by (intro NextDuration_fits) simp_all
next
  assume "\<not> (isFinite (float_product e)
           \<and> - (2 ^ 63) \<le> trunc_rat (f64_val (float_product e))
           \<and> trunc_rat (f64_val (float_product e)) < 2 ^ 63)"
  then show "interval (snd (NextDuration cvt e)) = cvt (float_product e)"
    by (rule NextDuration_unfit)
next
  assume h: "isFinite (multiplier e) \<and> \<bar>sint (interval e)\<bar> \<le> 2 ^ 53
        \<and> \<bar>exact_product e\<bar> \<le> 2 ^ 63 - 1024"
  then show "nearest_even (exact_product e) (float_product e)"
    by (intro NextDuration_nearest(1)) simp_all
next
  fix Q
  assume h: "isFinite (multiplier e) \<and> \<bar>sint (interval e)\<bar> \<le> 2 ^ 53
        \<and> \<bar>exact_product e\<bar> \<le> 2 ^ 63 - 1024"
    and Q: "nearest_even (exact_product e) Q"
  from h have "isFinite (multiplier e)" "\<bar>sint (interval e)\<bar> \<le> 2 ^ 53"
    "\<bar>exact_product e\<bar> \<le> 2 ^ 63 - 1024" by simp_all
  from this Q show "sint (interval (snd (NextDuration cvt e))) = trunc_rat (f64_val Q)"
    by (rule NextDuration_nearest(3))
next
  assume h: "isFinite (multiplier e) \<and> \<bar>sint (interval e)\<bar> \<le> 2 ^ 53
        \<and> \<bar>exact_product e\<bar> = of_nat m' * 2 powi e' \<and> m' < 2 ^ 53 \<and> - 1074 \<le> e'
        \<and> - (2 ^ 63) \<le> trunc_rat (exact_product e) \<and> trunc_rat (exact_product e) < 2 ^ 63"
  show "sint (interval (snd (NextDuration cvt e))) = trunc_rat (exact_product e)"
    by (rule NextDuration_exact[OF _ _ refl, of e m' e']) (use h in blast)+
next
  assume h: "isFinite (multiplier e) \<and> \<bar>sint (interval e)\<bar> \<le> 2 ^ 53
        \<and> exact_product e = rat_of_int P \<and> \<bar>P\<bar> \<le> 2 ^ 53"
  show "sint (interval (snd (NextDuration cvt e))) = P"
    by (rule NextDuration_exact_int) (use h in blast)+
next
  show "durations cvt 10 (NewExpTimer 1 (f64_const 2 0)) = [1, 2, 4, 8, 16, 32, 64, 128, 256, 512]"
    by (rule durations_doubling)
qed

theorem NextDuration_returns_interval_then_multiplies_witness:
  "fst (NextDuration cvt_amd64 (NewExpTimer 500000000
       \<lparr>sign_bit = False, exp_bits = 0x3FF, frac_bits = 0x199999999999A\<rparr>)) = 500000000
   \<and> exact_product (NewExpTimer 500000000
       \<lparr>sign_bit = False, exp_bits = 0x3FF, frac_bits = 0x199999999999A\<rparr>)
       = 4837851162214400390625 / 8796093022208
   \<and> f64_val (float_product (NewExpTimer 500000000
       \<lparr>sign_bit = False, exp_bits = 0x3FF, frac_bits = 0x199999999999A\<rparr>)) = 550000000
   \<and> sint (interval (snd (NextDuration cvt_amd64 (NewExpTimer 500000000
       \<lparr>sign_bit = False, exp_bits = 0x3FF, frac_bits = 0x199999999999A\<rparr>)))) = 550000000
   \<and> exact_product (NewExpTimer 9007199254740990 DefaultMultiplier) = 13510798882111485
   \<and> even (significand (float_product (NewExpTimer 9007199254740990 DefaultMultiplier)))
   \<and> sint (interval (snd (NextDuration cvt_amd64 (NewExpTimer 9007199254740990 DefaultMultiplier))))
       = 13510798882111484
   \<and> sint (interval (snd (NextDuration cvt_amd64 (NewExpTimer 3 (f64_const 5 (- 1)))))) = 7
   \<and> sint (interval (snd (NextDuration cvt_amd64 spec_default_timer))) = 750000000
   \<and> isNaN (float_product (NewExpTimer 1 f64_NaN))
   \<and> isNaN (float_product (NewExpTimer 0 (f64_Inf False)))
   \<and> float_product (NewExpTimer (- 1) (f64_Inf False)) = f64_Inf True
   \<and> float_product (NewExpTimer 2
         \<lparr>sign_bit = False, exp_bits = 2046, frac_bits = 0xFFFFFFFFFFFFF\<rparr>) = f64_Inf False
   \<and> interval (snd (NextDuration cvt_amd64 (NewExpTimer 2
         \<lparr>sign_bit = False, exp_bits = 2046, frac_bits = 0xFFFFFFFFFFFFF\<rparr>)))
       = - 9223372036854775808
   \<and> interval (snd (NextDuration cvt_amd64 (NewExpTimer 4611686018427387904 (f64_const 2 0))))
       = - 9223372036854775808"
proof -
  let ?m = "\<lparr>sign_bit = False, exp_bits = 0x3FF, frac_bits = 0x199999999999A\<rparr>"
  let ?e = "NewExpTimer 500000000 ?m"
  note thm0 = NextDuration_returns_interval_then_multiplies[of cvt_amd64 ?e 0 0 0]
  have i: "interval ?e = 500000000" and m: "multiplier ?e = ?m"
    by (simp_all add: NewExpTimer_def)
  have s5: "sint (500000000 :: 64 word) = 500000000" by simp
  have fm: "isFinite ?m" by (simp add: isFinite_def)
  have vm: "f64_val ?m = 4953959590107546 / 4503599627370496"
    by (simp add: f64_val_def significand_def exponent_def power_int_minus)
  have x: "exact_product ?e = 4837851162214400390625 / 8796093022208"
    by (simp only: i m s5 vm)
  have P: "float_product ?e = \<lparr>sign_bit = False, exp_bits = 1052, frac_bits = 110134772629504\<rparr>"
    by (simp add: NewExpTimer_def f64_eval)
  have vP: "f64_val (float_product ?e) = 550000000"
    by (simp only: P) (simp add: f64_val_def significand_def exponent_def)
  have t: "trunc_rat 550000000 = 550000000" by (simp add: trunc_rat_def)
  have h1: "isFinite (multiplier ?e)" by (simp only: m fm)
  have h2: "\<bar>sint (interval ?e)\<bar> \<le> 2 ^ 53" by (simp only: i s5) simp
  have h3: "\<bar>exact_product ?e\<bar> \<le> 2 ^ 63 - 1024" by (simp only: x) simp
  from thm0[THEN conjunct2, THEN conjunct2, THEN conjunct2, THEN conjunct2, THEN conjunct2, THEN conjunct2, THEN conjunct2, THEN conjunct2, THEN conjunct2, THEN conjunct1] h1 h2 h3
  have n: "nearest_even (exact_product ?e) (float_product ?e)"
    and q: "\<forall>Q. nearest_even (exact_product ?e) Q \<longrightarrow>
        sint (interval (snd (NextDuration cvt_amd64 ?e))) = trunc_rat (f64_val Q)"
    by blast+
  from q n have a: "sint (interval (snd (NextDuration cvt_amd64 ?e))) = 550000000"
    by (simp only: vP t)
  from thm0[THEN conjunct1] have a0: "fst (NextDuration cvt_amd64 ?e) = 500000000" by (simp only: i)
  have vA: "f64_val (float_interval ?e) = 500000000"
    by (simp add: NewExpTimer_def f64_eval f64_val_def)
  have "\<bar>f64_val (float_interval ?e) * f64_val (multiplier ?e)\<bar> < (2 ^ 54 - 1) * 2 powi 970"
    unfolding vA m vm by simp
  with thm0[THEN conjunct2, THEN conjunct2, THEN conjunct2, THEN conjunct2, THEN conjunct1] h1 have fP: "isFinite (float_product ?e)" by blast
  from thm0[THEN conjunct2, THEN conjunct2, THEN conjunct2, THEN conjunct2, THEN conjunct1] h1 fP
  have "nearest_even (f64_val (float_interval ?e) * f64_val (multiplier ?e)) (float_product ?e)"
    by blast
  have "- (2 ^ 63) \<le> trunc_rat (f64_val (float_product ?e))"
    "trunc_rat (f64_val (float_product ?e)) < 2 ^ 63"
    by (simp_all only: vP t) simp_all
  with thm0[THEN conjunct2, THEN conjunct2, THEN conjunct2, THEN conjunct2, THEN conjunct2, THEN conjunct2, THEN conjunct2, THEN conjunct1] fP
  have "sint (interval (snd (NextDuration cvt_amd64 ?e))) = trunc_rat (f64_val (float_product ?e))"
    by blast
  let ?et = "NewExpTimer 9007199254740990 DefaultMultiplier"
  let ?g = "\<lparr>sign_bit = False, exp_bits = 1076, frac_bits = 2251799813685247\<rparr>"
  note thmt = NextDuration_returns_interval_then_multiplies[of cvt_amd64 ?et 0 0 0]
  have it: "interval ?et = 9007199254740990" and mt: "multiplier ?et = DefaultMultiplier"
    by (simp_all add: NewExpTimer_def)
  have st: "sint (9007199254740990 :: 64 word) = 9007199254740990" by simp
  have xt: "exact_product ?et = 13510798882111485"
    by (simp only: it mt st f64_val_DefaultMultiplier)
  have Pt: "float_product ?et
      = \<lparr>sign_bit = False, exp_bits = 1076, frac_bits = 2251799813685246\<rparr>"
    by (simp add: NewExpTimer_def DefaultMultiplier_bits f64_eval)
  have vPt: "f64_val (float_product ?et) = 13510798882111484"
    by (simp only: Pt) (simp add: f64_val_def significand_def exponent_def)
  have vg: "f64_val ?g = 13510798882111486"
    by (simp add: f64_val_def significand_def exponent_def)
  have fg: "isFinite ?g" by (simp add: isFinite_def)
  have tt: "trunc_rat 13510798882111484 = 13510798882111484" by (simp add: trunc_rat_def)
  have "isFinite (multiplier ?et)" by (simp only: mt) (simp add: DefaultMultiplier_bits isFinite_def)
  moreover have "\<bar>sint (interval ?et)\<bar> \<le> 2 ^ 53" by (simp only: it st) simp
  moreover have "\<bar>exact_product ?et\<bar> \<le> 2 ^ 63 - 1024" by (simp only: xt) simp
  ultimately have nt: "nearest_even (exact_product ?et) (float_product ?et)"
    and qt: "\<forall>Q. nearest_even (exact_product ?et) Q \<longrightarrow>
        sint (interval (snd (NextDuration cvt_amd64 ?et))) = trunc_rat (f64_val Q)"
    using thmt[THEN conjunct2, THEN conjunct2, THEN conjunct2, THEN conjunct2, THEN conjunct2, THEN conjunct2, THEN conjunct2, THEN conjunct2, THEN conjunct2, THEN conjunct1] by blast+
  have "f64_val ?g \<noteq> f64_val (float_product ?et)" unfolding vg vPt by simp
  moreover have "\<bar>f64_val ?g - exact_product ?et\<bar>
      = \<bar>f64_val (float_product ?et) - exact_product ?et\<bar>"
    unfolding vg vPt xt by simp
  ultimately have ev: "even (significand (float_product ?et))"
    using nt fg unfolding nearest_even_def by blast
  from qt nt have at: "sint (interval (snd (NextDuration cvt_amd64 ?et))) = 13510798882111484"
    by (simp only: vPt tt)
  let ?e3 = "NewExpTimer 3 (f64_const 5 (- 1))"
  note thm1 = NextDuration_returns_interval_then_multiplies[of cvt_amd64 ?e3 15 "- 1" 0]
  have i3: "interval ?e3 = 3" and m3: "multiplier ?e3 = f64_const 5 (- 1)"
    by (simp_all add: NewExpTimer_def)
  have s3: "sint (3 :: 64 word) = 3" by simp
  have v: "f64_val (f64_const 5 (- 1)) = 5 / 2" by (rule f64_val_f64_const_5_half)
  have f: "isFinite (f64_const 5 (- 1))" by (rule f64_val_f64_const_5_half)
  have pr: "rat_of_int 3 * (5 / 2) = 15 / 2" by simp
  have t3: "trunc_rat (15 / 2) = 7" by (simp add: trunc_rat_def floor_eq_iff)
  have p: "\<bar>15 / 2 :: rat\<bar> = of_nat 15 * 2 powi (- 1)" by (simp add: power_int_minus)
  have x3: "exact_product ?e3 = 15 / 2" by (simp only: i3 m3 s3 v pr)
  have "isFinite (multiplier ?e3)" by (simp only: m3 f)
  moreover have "\<bar>sint (interval ?e3)\<bar> \<le> 2 ^ 53" by (simp only: i3 s3) simp
  moreover have "\<bar>exact_product ?e3\<bar> = of_nat 15 * 2 powi (- 1)" by (simp only: x3 p)
  moreover have "(15::nat) < 2 ^ 53" "- 1074 \<le> (- 1 :: int)" by simp_all
  moreover have "- (2 ^ 63) \<le> trunc_rat (exact_product ?e3)"
    "trunc_rat (exact_product ?e3) < 2 ^ 63" by (simp_all only: x3 t3) simp_all
  ultimately have "sint (interval (snd (NextDuration cvt_amd64 ?e3))) = trunc_rat (exact_product ?e3)"
    using thm1[THEN conjunct2, THEN conjunct2, THEN conjunct2, THEN conjunct2, THEN conjunct2, THEN conjunct2, THEN conjunct2, THEN conjunct2, THEN conjunct2, THEN conjunct2, THEN conjunct1] by blast
  then have b: "sint (interval (snd (NextDuration cvt_amd64 ?e3))) = 7" by (simp only: x3 t3)
  note thm2 = NextDuration_returns_interval_then_multiplies[of cvt_amd64 spec_default_timer 0 0 750000000]
  have vd: "f64_val (multiplier spec_default_timer) = 3 / 2"
    using f64_val_DefaultMultiplier by (simp add: spec_default_timer_def DefaultMultiplier_bits)
  have fd: "isFinite (multiplier spec_default_timer)"
    by (simp add: spec_default_timer_def isFinite_def)
  have sd: "sint (interval spec_default_timer) = 500000000"
    by (simp add: spec_default_timer_def)
  have pd: "rat_of_int 500000000 * (3 / 2) = rat_of_int 750000000" by simp
  have xd: "exact_product spec_default_timer = rat_of_int 750000000" by (simp only: sd vd pd)
  have "\<bar>sint (interval spec_default_timer)\<bar> \<le> 2 ^ 53" by (simp only: sd) simp
  moreover have "\<bar>750000000 :: int\<bar> \<le> 2 ^ 53" by simp
  ultimately have c: "sint (interval (snd (NextDuration cvt_amd64 spec_default_timer))) = 750000000"
    using thm2[THEN conjunct2, THEN conjunct2, THEN conjunct2, THEN conjunct2, THEN conjunct2, THEN conjunct2, THEN conjunct2, THEN conjunct2, THEN conjunct2, THEN conjunct2, THEN conjunct2, THEN conjunct1] fd xd by blast
  let ?en = "NewExpTimer 1 f64_NaN"
  note thmn = NextDuration_returns_interval_then_multiplies[of cvt_amd64 ?en 0 0 0]
  have "isNaN (multiplier ?en)" by (simp add: NewExpTimer_def f64_NaN_def isNaN_def)
  with thmn[THEN conjunct2, THEN conjunct2, THEN conjunct2, THEN conjunct2, THEN conjunct2, THEN conjunct1] have dn: "isNaN (float_product ?en)" by blast
  let ?ez = "NewExpTimer 0 (f64_Inf False)"
  note thmz = NextDuration_returns_interval_then_multiplies[of cvt_amd64 ?ez 0 0 0]
  have "isInf (multiplier ?ez)" "interval ?ez = 0"
    by (simp_all add: NewExpTimer_def f64_Inf_def isInf_def)
  with thmz[THEN conjunct2, THEN conjunct2, THEN conjunct2, THEN conjunct2, THEN conjunct2, THEN conjunct2, THEN conjunct1] have dz: "isNaN (float_product ?ez)" by blast
  let ?ei = "NewExpTimer (- 1) (f64_Inf False)"
  note thmi = NextDuration_returns_interval_then_multiplies[of cvt_amd64 ?ei 0 0 0]
  have "isInf (multiplier ?ei)" "interval ?ei \<noteq> 0"
    by (simp_all add: NewExpTimer_def f64_Inf_def isInf_def)
  with thmi[THEN conjunct2, THEN conjunct2, THEN conjunct2, THEN conjunct2, THEN conjunct2, THEN conjunct2, THEN conjunct1] have "float_product ?ei
      = f64_Inf ((sint (interval ?ei) < 0) \<noteq> sign_bit (multiplier ?ei))" by blast
  then have di: "float_product ?ei = f64_Inf True"
    by (simp add: NewExpTimer_def f64_Inf_def)
  let ?M = "\<lparr>sign_bit = False, exp_bits = 2046, frac_bits = 0xFFFFFFFFFFFFF\<rparr>"
  let ?ex = "NewExpTimer 2 ?M"
  note thmx = NextDuration_returns_interval_then_multiplies[of cvt_amd64 ?ex 0 0 0]
  have ix: "interval ?ex = 2" and mx: "multiplier ?ex = ?M" by (simp_all add: NewExpTimer_def)
  have fx: "isFinite (multiplier ?ex)" by (simp add: NewExpTimer_def isFinite_def)
  have vAx: "f64_val (float_interval ?ex) = 2"
    by (simp add: NewExpTimer_def f64_eval f64_val_def)
  have "(2::rat) powi 971 = 2 * 2 powi 970" using two_powi_add[of 1 970] by simp
  then have "\<not> \<bar>f64_val (float_interval ?ex) * f64_val (multiplier ?ex)\<bar>
      < (2 ^ 54 - 1) * 2 powi 970"
    unfolding vAx mx f64_val_max by simp
  with thmx[THEN conjunct2, THEN conjunct2, THEN conjunct2, THEN conjunct2, THEN conjunct1] fx have nf: "\<not> isFinite (float_product ?ex)" by blast
  with thmx[THEN conjunct2, THEN conjunct2, THEN conjunct2, THEN conjunct2, THEN conjunct1] fx have "float_product ?ex
      = f64_Inf ((sint (interval ?ex) < 0) \<noteq> sign_bit (multiplier ?ex))" by blast
  then have dx: "float_product ?ex = f64_Inf False" by (simp add: NewExpTimer_def)
  from thmx[THEN conjunct2, THEN conjunct2, THEN conjunct2, THEN conjunct2, THEN conjunct2, THEN conjunct2, THEN conjunct2, THEN conjunct2, THEN conjunct1] nf
  have "interval (snd (NextDuration cvt_amd64 ?ex)) = cvt_amd64 (float_product ?ex)"
    by blast
  then have ox: "interval (snd (NextDuration cvt_amd64 ?ex)) = - 9223372036854775808"
    by (simp add: cvt_amd64_def)
  let ?eo = "NewExpTimer 4611686018427387904 (f64_const 2 0)"
  note thm4 = NextDuration_returns_interval_then_multiplies[of cvt_amd64 ?eo 0 0 0]
  have Po: "float_product ?eo = \<lparr>sign_bit = False, exp_bits = 1086, frac_bits = 0\<rparr>"
    by (simp add: NewExpTimer_def f64_eval)
  have vo: "f64_val (float_product ?eo) = 9223372036854775808"
    by (simp only: Po) (simp add: f64_val_def significand_def exponent_def)
  have "\<not> trunc_rat (f64_val (float_product ?eo)) < 2 ^ 63"
    by (simp only: vo) (simp add: trunc_rat_def)
  with thm4[THEN conjunct2, THEN conjunct2, THEN conjunct2, THEN conjunct2, THEN conjunct2, THEN conjunct2, THEN conjunct2, THEN conjunct2, THEN conjunct1]
  have "interval (snd (NextDuration cvt_amd64 ?eo)) = cvt_amd64 (float_product ?eo)"
    by blast
  then have o: "interval (snd (NextDuration cvt_amd64 ?eo)) = - 9223372036854775808"
    by (simp add: cvt_amd64_def)
  show ?thesis using a0 x vP a xt ev at b c dn dz di dx ox o by (intro conjI)
qed




text \<open>
  C9. \<^verbatim>\<open>NextDuration\<close> sets the interval to the int64 conversion of the float64
  product of the converted interval and the multiplier, and each of the three steps is
  the one of Go. The conversion of an int64 yields the float64 nearest to it, ties to
  even, with its sign, and the integer itself up to \<open>2 ^ 53\<close> in magnitude. The
  product of two finite float64 values has the sign of the two together; it is finite
  exactly when their exact product is below \<open>(2 ^ 54 - 1) * 2 ^ 970\<close> in magnitude,
  it is then the float64 nearest to the exact product, ties to even, and otherwise the
  infinity of that sign; the product of a finite value and a NaN is a NaN, that of a
  finite value and an infinity is a NaN for zero and the infinity of the sign of the two
  otherwise. Two float64 values that are nearest in this sense to one exact value are
  equal, so this fixes the product. The conversion to int64 of a finite float64 whose
  truncation fits is its exact value truncated towards zero: it is not larger in
  magnitude and differs by less than 1, the fraction is lost; a float64 that does not fit
  is left to the implementation. So 3 nanoseconds times 2.5 become 7 and \<open>- 3\<close>
  become \<open>- 7\<close>. With an interval of 1 nanosecond and the multiplier 1.5, which
  exceeds 1, the float64 product is 1.5 and its truncation 1: every call returns 1 and
  leaves the timer as it was, however many calls are made.
\<close>

theorem NextDuration_truncates:
  "snd (NextDuration cvt e) =
     e\<lparr>interval := int64_of_float64 cvt (f64_mul (float64_of_int64 (interval e)) (multiplier e))\<rparr>
   \<and> nearest_even (rat_of_int (sint i)) (float64_of_int64 i)
   \<and> sign_bit (float64_of_int64 i) = (sint i < 0)
   \<and> (\<bar>sint i\<bar> \<le> 2 ^ 53 \<longrightarrow> f64_val (float64_of_int64 i) = rat_of_int (sint i))
   \<and> (isFinite a \<and> isFinite b \<longrightarrow>
        sign_bit (f64_mul a b) = (sign_bit a \<noteq> sign_bit b)
        \<and> (isFinite (f64_mul a b) \<longleftrightarrow> \<bar>f64_val a * f64_val b\<bar> < (2 ^ 54 - 1) * 2 powi 970)
        \<and> (isFinite (f64_mul a b) \<longrightarrow> nearest_even (f64_val a * f64_val b) (f64_mul a b))
        \<and> (\<not> isFinite (f64_mul a b) \<longrightarrow> f64_mul a b = f64_Inf (sign_bit a \<noteq> sign_bit b)))
   \<and> (isFinite a \<and> isNaN b \<longrightarrow> isNaN (f64_mul a b))
   \<and> (isFinite a \<and> isInf b \<longrightarrow>
        (isZero a \<longrightarrow> isNaN (f64_mul a b))
        \<and> (\<not> isZero a \<longrightarrow> f64_mul a b = f64_Inf (sign_bit a \<noteq> sign_bit b)))
   \<and> (nearest_even x p \<and> nearest_even x q \<longrightarrow> f64_val p = f64_val q)
   \<and> (isFinite f \<and> - (2 ^ 63) \<le> trunc_rat (f64_val f) \<and> trunc_rat (f64_val f) < 2 ^ 63 \<longrightarrow>
        sint (int64_of_float64 cvt f) = trunc_rat (f64_val f)
        \<and> \<bar>rat_of_int (sint (int64_of_float64 cvt f))\<bar> \<le> \<bar>f64_val f\<bar>
        \<and> \<bar>f64_val f - rat_of_int (sint (int64_of_float64 cvt f))\<bar> < 1)
   \<and> (\<not> (isFinite f \<and> - (2 ^ 63) \<le> trunc_rat (f64_val f) \<and> trunc_rat (f64_val f) < 2 ^ 63) \<longrightarrow>
        int64_of_float64 cvt f = cvt f)
   \<and> NextDuration cvt (NewExpTimer 3 (f64_const 5 (- 1))) = (3, NewExpTimer 7 (f64_const 5 (- 1)))
   \<and> NextDuration cvt (NewExpTimer (- 3) (f64_const 5 (- 1)))
       = (- 3, NewExpTimer (- 7) (f64_const 5 (- 1)))
   \<and> 1 < f64_val DefaultMultiplier
   \<and> f64_val (f64_mul (float64_of_int64 Nanosecond) DefaultMultiplier) = 3 / 2
   \<and> NextDuration cvt (NewExpTimer Nanosecond DefaultMultiplier)
       = (1, NewExpTimer Nanosecond DefaultMultiplier)
   \<and> durations cvt n (NewExpTimer Nanosecond DefaultMultiplier) = replicate n 1
   \<and> advance cvt n (NewExpTimer Nanosecond DefaultMultiplier)
       = NewExpTimer Nanosecond DefaultMultiplier"
proof (intro conjI impI)
  show "snd (NextDuration cvt e) =
     e\<lparr>interval := int64_of_float64 cvt (f64_mul (float64_of_int64 (interval e)) (multiplier e))\<rparr>"
    by (simp add: NextDuration_def)
next
  show "nearest_even (rat_of_int (sint i)) (float64_of_int64 i)"
    by (rule float64_of_int64_nearest_even)
next
  show "sign_bit (float64_of_int64 i) = (sint i < 0)" by (rule sign_bit_float64_of_int64)
next
  assume "\<bar>sint i\<bar> \<le> 2 ^ 53"
  then show "f64_val (float64_of_int64 i) = rat_of_int (sint i)"
    by (rule float64_of_int64_exact)
next
  assume "isFinite a \<and> isFinite b"
  then show "sign_bit (f64_mul a b) = (sign_bit a \<noteq> sign_bit b)"
    by (intro sign_bit_f64_mul) simp_all
next
  assume "isFinite a \<and> isFinite b"
  then show "isFinite (f64_mul a b) \<longleftrightarrow> \<bar>f64_val a * f64_val b\<bar> < (2 ^ 54 - 1) * 2 powi 970"
    by (intro f64_mul_finite_iff) simp_all
next
  assume "isFinite a \<and> isFinite b" and "isFinite (f64_mul a b)"
  then show "nearest_even (f64_val a * f64_val b) (f64_mul a b)"
    by (intro f64_mul_nearest_even) simp_all
next
  assume "isFinite a \<and> isFinite b" and "\<not> isFinite (f64_mul a b)"
  then show "f64_mul a b = f64_Inf (sign_bit a \<noteq> sign_bit b)"
    by (intro f64_mul_overflow) simp_all
next
  assume "isFinite a \<and> isNaN b"
  then show "isNaN (f64_mul a b)" by (intro f64_mul_NaN) simp
next
  assume h: "isFinite a \<and> isInf b" and z: "isZero a"
  from h have "f64_mul a b = (if isZero a then f64_NaN else f64_Inf (sign_bit a \<noteq> sign_bit b))"
    by (intro f64_mul_Inf not_isNaN_finite) simp_all
  with z show "isNaN (f64_mul a b)" by (simp add: isNaN_def f64_NaN_def)
next
  assume h: "isFinite a \<and> isInf b" and z: "\<not> isZero a"
  from h have "f64_mul a b = (if isZero a then f64_NaN else f64_Inf (sign_bit a \<noteq> sign_bit b))"
    by (intro f64_mul_Inf not_isNaN_finite) simp_all
  with z show "f64_mul a b = f64_Inf (sign_bit a \<noteq> sign_bit b)" by simp
next
  assume "nearest_even x p \<and> nearest_even x q"
  then show "f64_val p = f64_val q" by (intro nearest_even_unique[of x]) simp_all
next
  assume h: "isFinite f \<and> - (2 ^ 63) \<le> trunc_rat (f64_val f) \<and> trunc_rat (f64_val f) < 2 ^ 63"
  then have "fits_int64 f" by (simp only: fits_int64_iff)
  then show t: "sint (int64_of_float64 cvt f) = trunc_rat (f64_val f)"
    by (rule int64_of_float64_fits)
  show "\<bar>rat_of_int (sint (int64_of_float64 cvt f))\<bar> \<le> \<bar>f64_val f\<bar>"
    by (simp only: t abs_trunc_rat_le)
  show "\<bar>f64_val f - rat_of_int (sint (int64_of_float64 cvt f))\<bar> < 1"
    by (simp only: t trunc_rat_fraction)
next
  assume "\<not> (isFinite f \<and> - (2 ^ 63) \<le> trunc_rat (f64_val f) \<and> trunc_rat (f64_val f) < 2 ^ 63)"
  then have "\<not> fits_int64 f" by (simp add: fits_int64_iff)
  then show "int64_of_float64 cvt f = cvt f" by (rule int64_of_float64_unfit)
next
  show "NextDuration cvt (NewExpTimer 3 (f64_const 5 (- 1))) = (3, NewExpTimer 7 (f64_const 5 (- 1)))"
    by (rule NextDuration_towards_zero)
next
  show "NextDuration cvt (NewExpTimer (- 3) (f64_const 5 (- 1)))
       = (- 3, NewExpTimer (- 7) (f64_const 5 (- 1)))"
    by (rule NextDuration_towards_zero)
next
  show "1 < f64_val DefaultMultiplier" by (simp add: f64_val_DefaultMultiplier)
next
  show "f64_val (f64_mul (float64_of_int64 Nanosecond) DefaultMultiplier) = 3 / 2"
    by (simp add: Nanosecond_def DefaultMultiplier_bits f64_eval f64_val_def)
next
  show "NextDuration cvt (NewExpTimer Nanosecond DefaultMultiplier)
       = (1, NewExpTimer Nanosecond DefaultMultiplier)"
    by (rule NextDuration_stuck)
next
  show "durations cvt n (NewExpTimer Nanosecond DefaultMultiplier) = replicate n 1"
    by (rule stuck_forever)
next
  show "advance cvt n (NewExpTimer Nanosecond DefaultMultiplier)
       = NewExpTimer Nanosecond DefaultMultiplier"
    by (rule stuck_forever)
qed

theorem NextDuration_truncates_witness:
  "f64_val (float64_of_int64 Nanosecond) = 1
   \<and> isFinite (f64_mul (float64_of_int64 Nanosecond) DefaultMultiplier)
   \<and> f64_val (f64_mul (float64_of_int64 Nanosecond) DefaultMultiplier) = 3 / 2
   \<and> \<bar>f64_val (f64_mul (float64_of_int64 Nanosecond) DefaultMultiplier) - 1 * (3 / 2)\<bar>
       \<le> \<bar>f64_val (f64_const 2 0) - 1 * (3 / 2)\<bar>
   \<and> f64_val (f64_mul (float64_of_int64 Nanosecond) DefaultMultiplier) = f64_val DefaultMultiplier
   \<and> sint (int64_of_float64 cvt_amd64 (f64_mul (float64_of_int64 Nanosecond) DefaultMultiplier)) = 1
   \<and> \<bar>3 / 2 - rat_of_int 1\<bar> < (1 :: rat)
   \<and> f64_mul (float64_of_int64 2)
        \<lparr>sign_bit = True, exp_bits = 2046, frac_bits = 0xFFFFFFFFFFFFF\<rparr> = f64_Inf True
   \<and> isNaN (f64_mul (float64_of_int64 Nanosecond) f64_NaN)
   \<and> isNaN (f64_mul (float64_of_int64 0) (f64_Inf False))
   \<and> f64_mul (float64_of_int64 Nanosecond) (f64_Inf True) = f64_Inf True
   \<and> int64_of_float64 cvt_amd64 (f64_Inf False) = - 9223372036854775808
   \<and> durations cvt_amd64 5 (NewExpTimer Nanosecond DefaultMultiplier) = [1, 1, 1, 1, 1]"
proof -
  let ?a = "float64_of_int64 Nanosecond"
  let ?P = "f64_mul ?a DefaultMultiplier"
  let ?e = "NewExpTimer Nanosecond DefaultMultiplier"
  note inst = NextDuration_truncates[of cvt_amd64 ?e Nanosecond ?a DefaultMultiplier "3 / 2" ?P DefaultMultiplier ?P 5]
  have s1: "sint Nanosecond = 1" by (simp add: Nanosecond_def)
  have "\<bar>sint Nanosecond\<bar> \<le> 2 ^ 53" by (simp add: s1)
  with inst[THEN conjunct2, THEN conjunct2, THEN conjunct2, THEN conjunct1] have va: "f64_val ?a = 1" by (simp add: s1)
  note vP = inst[THEN conjunct2, THEN conjunct2, THEN conjunct2, THEN conjunct2, THEN conjunct2, THEN conjunct2, THEN conjunct2, THEN conjunct2, THEN conjunct2, THEN conjunct2, THEN conjunct2, THEN conjunct2, THEN conjunct2, THEN conjunct1]
  have fa: "isFinite ?a" by (rule isFinite_float64_of_int64)
  have fb: "isFinite DefaultMultiplier" by (simp add: DefaultMultiplier_bits isFinite_def)
  have "\<bar>f64_val ?a * f64_val DefaultMultiplier\<bar> < (2 ^ 54 - 1) * 2 powi 970"
    unfolding va f64_val_DefaultMultiplier by simp
  with inst[THEN conjunct2, THEN conjunct2, THEN conjunct2, THEN conjunct2, THEN conjunct1] fa fb have fP: "isFinite ?P" by blast
  from inst[THEN conjunct2, THEN conjunct2, THEN conjunct2, THEN conjunct2, THEN conjunct1] fa fb fP
  have "nearest_even (f64_val ?a * f64_val DefaultMultiplier) ?P" by blast
  then have ne: "nearest_even (1 * (3 / 2)) ?P"
    by (simp only: va f64_val_DefaultMultiplier)
  have "isFinite (f64_round False 3 (- 1))"
    using fb by (simp only: DefaultMultiplier_def f64_const_def)
  then have "nearest_even ((if False then - 1 else 1) * (of_nat 3 * 2 powi (- 1)))
      (f64_round False 3 (- 1))" by (rule f64_round_nearest_even)
  then have nd: "nearest_even (3 / 2) DefaultMultiplier"
    by (simp add: DefaultMultiplier_def f64_const_def power_int_minus)
  from ne have "nearest_even (3 / 2) ?P" by simp
  with inst[THEN conjunct2, THEN conjunct2, THEN conjunct2, THEN conjunct2, THEN conjunct2, THEN conjunct2, THEN conjunct2, THEN conjunct1] nd have un: "f64_val ?P = f64_val DefaultMultiplier" by blast
  have f2: "isFinite (f64_const 2 0)" by (simp add: f64_const_2 isFinite_def)
  from ne f2 have near: "\<bar>f64_val ?P - 1 * (3 / 2)\<bar> \<le> \<bar>f64_val (f64_const 2 0) - 1 * (3 / 2)\<bar>"
    unfolding nearest_even_def by blast
  have t: "trunc_rat (3 / 2) = 1" by (simp add: trunc_rat_def floor_eq_iff)
  have "isFinite ?P \<and> - (2 ^ 63) \<le> trunc_rat (f64_val ?P) \<and> trunc_rat (f64_val ?P) < 2 ^ 63"
    using fP by (simp only: vP t) simp
  with inst[THEN conjunct2, THEN conjunct2, THEN conjunct2, THEN conjunct2, THEN conjunct2, THEN conjunct2, THEN conjunct2, THEN conjunct2, THEN conjunct1] have tr: "sint (int64_of_float64 cvt_amd64 ?P) = trunc_rat (f64_val ?P)"
    and fr: "\<bar>f64_val ?P - rat_of_int (sint (int64_of_float64 cvt_amd64 ?P))\<bar> < 1"
    by blast+
  from tr have r1: "sint (int64_of_float64 cvt_amd64 ?P) = 1" by (simp only: vP t)
  from fr have r2: "\<bar>3 / 2 - rat_of_int 1\<bar> < (1 :: rat)" by (simp only: r1 vP)
  let ?two = "float64_of_int64 2"
  let ?M = "\<lparr>sign_bit = True, exp_bits = 2046, frac_bits = 0xFFFFFFFFFFFFF\<rparr>"
  note insto = NextDuration_truncates[of cvt_amd64 ?e Nanosecond ?two ?M "3 / 2" ?P DefaultMultiplier
      "f64_Inf False" 5]
  have f2': "isFinite ?two" by (rule isFinite_float64_of_int64)
  have fM: "isFinite ?M" by (simp add: isFinite_def)
  have v2: "f64_val ?two = 2" by (simp add: f64_eval f64_val_def)
  have vM: "f64_val ?M = - ((2 ^ 53 - 1) * 2 powi 971)"
    by (simp add: f64_val_def significand_def exponent_def)
  have "(2::rat) powi 971 = 2 * 2 powi 970" using two_powi_add[of 1 970] by simp
  then have "\<not> \<bar>f64_val ?two * f64_val ?M\<bar> < (2 ^ 54 - 1) * 2 powi 970"
    unfolding v2 vM by simp
  with insto[THEN conjunct2, THEN conjunct2, THEN conjunct2, THEN conjunct2, THEN conjunct1] f2' fM have "\<not> isFinite (f64_mul ?two ?M)" by blast
  with insto[THEN conjunct2, THEN conjunct2, THEN conjunct2, THEN conjunct2, THEN conjunct1] f2' fM have "f64_mul ?two ?M = f64_Inf (sign_bit ?two \<noteq> sign_bit ?M)" by blast
  then have ov: "f64_mul ?two ?M = f64_Inf True" by (simp add: sign_bit_float64_of_int64)
  have "\<not> isFinite (f64_Inf False)" by (simp add: f64_Inf_def isFinite_def)
  with insto[THEN conjunct2, THEN conjunct2, THEN conjunct2, THEN conjunct2, THEN conjunct2, THEN conjunct2, THEN conjunct2, THEN conjunct2, THEN conjunct2, THEN conjunct1]
  have "int64_of_float64 cvt_amd64 (f64_Inf False) = cvt_amd64 (f64_Inf False)"
    by blast
  then have inf: "int64_of_float64 cvt_amd64 (f64_Inf False) = - 9223372036854775808"
    by (simp add: cvt_amd64_def)
  note instn = NextDuration_truncates[of cvt_amd64 ?e Nanosecond ?a f64_NaN "3 / 2" ?P DefaultMultiplier ?P 5]
  have "isNaN f64_NaN" by (simp add: f64_NaN_def isNaN_def)
  with instn[THEN conjunct2, THEN conjunct2, THEN conjunct2, THEN conjunct2, THEN conjunct2, THEN conjunct1] fa have nan: "isNaN (f64_mul ?a f64_NaN)" by blast
  let ?z = "float64_of_int64 0"
  note instz = NextDuration_truncates[of cvt_amd64 ?e Nanosecond ?z "f64_Inf False" "3 / 2" ?P DefaultMultiplier ?P 5]
  have "isFinite ?z" by (rule isFinite_float64_of_int64)
  moreover have "isInf (f64_Inf False)" by (simp add: f64_Inf_def isInf_def)
  moreover have "isZero ?z" by (simp add: isZero_float64_of_int64)
  ultimately have zi: "isNaN (f64_mul ?z (f64_Inf False))" using instz[THEN conjunct2, THEN conjunct2, THEN conjunct2, THEN conjunct2, THEN conjunct2, THEN conjunct2, THEN conjunct1] by blast
  note insti = NextDuration_truncates[of cvt_amd64 ?e Nanosecond ?a "f64_Inf True" "3 / 2" ?P DefaultMultiplier ?P 5]
  have "isInf (f64_Inf True)" by (simp add: f64_Inf_def isInf_def)
  moreover have "\<not> isZero ?a" by (simp add: isZero_float64_of_int64 Nanosecond_def)
  ultimately have "f64_mul ?a (f64_Inf True) = f64_Inf (sign_bit ?a \<noteq> sign_bit (f64_Inf True))"
    using insti[THEN conjunct2, THEN conjunct2, THEN conjunct2, THEN conjunct2, THEN conjunct2, THEN conjunct2, THEN conjunct1] fa by blast
  then have ii: "f64_mul ?a (f64_Inf True) = f64_Inf True"
    by (simp add: sign_bit_float64_of_int64 s1 f64_Inf_def)
  have r: "replicate 5 (1 :: 64 word) = [1, 1, 1, 1, 1]" by (simp add: numeral_eq_Suc)
  note dr = inst[THEN conjunct2, THEN conjunct2, THEN conjunct2, THEN conjunct2, THEN conjunct2, THEN conjunct2, THEN conjunct2, THEN conjunct2, THEN conjunct2, THEN conjunct2, THEN conjunct2, THEN conjunct2, THEN conjunct2, THEN conjunct2, THEN conjunct2, THEN conjunct1]
  from dr have d: "durations cvt_amd64 5 ?e = [1, 1, 1, 1, 1]" by (simp only: r)
  show ?thesis using va fP vP near un r1 r2 ov nan zi ii inf d by (intro conjI)
qed

end
